theory Spec2Isabelle
  imports Main "HOL-Library.Sublist" "HOL-Library.List_Lexorder" "HOL-Library.Multiset"
begin

section \<open>Python strings\<close>

text \<open>
  A Python \<open>str\<close> is a sequence of Unicode code points. It is modelled as a list of
  natural numbers, one per code point, so that the whitespace and line-boundary classes of
  \<open>str.strip\<close>, \<open>str.split\<close> and \<open>str.splitlines\<close> can be written out in full.
  Comparison of two \<open>str\<close> values is lexicographic by code point, which is the order
  that \<open>HOL-Library.List_Lexorder\<close> puts on lists.
\<close>

type_synonym pystr = "nat list"

definition py :: "string \<Rightarrow> pystr" where
  \<comment> \<open>An ASCII literal of the source as a \<open>str\<close>.\<close>
  "py s = map of_char s"

definition isspace :: "nat \<Rightarrow> bool" where
  \<comment> \<open>The code points that \<open>str.strip()\<close> and \<open>str.split()\<close> treat as whitespace.\<close>
  "isspace c \<longleftrightarrow>
     (9 \<le> c \<and> c \<le> 13) \<or> (28 \<le> c \<and> c \<le> 32) \<or> c = 133 \<or> c = 160 \<or> c = 5760 \<or>
     (8192 \<le> c \<and> c \<le> 8202) \<or> c = 8232 \<or> c = 8233 \<or> c = 8239 \<or> c = 8287 \<or> c = 12288"

definition is_linebreak :: "nat \<Rightarrow> bool" where
  \<comment> \<open>The line boundaries of \<open>str.splitlines()\<close>: LF, VT, FF, CR, FS, GS, RS, NEL, LS, PS.\<close>
  "is_linebreak c \<longleftrightarrow>
     (10 \<le> c \<and> c \<le> 13) \<or> (28 \<le> c \<and> c \<le> 30) \<or> c = 133 \<or> c = 8232 \<or> c = 8233"

fun splitlines_from :: "pystr \<Rightarrow> pystr \<Rightarrow> pystr list" where
  "splitlines_from cur [] = (if cur = [] then [] else [cur])"
| "splitlines_from cur [c] = (if is_linebreak c then [cur] else [cur @ [c]])"
| "splitlines_from cur (c # d # cs) =
     (if c = 13 \<and> d = 10 then cur # splitlines_from [] cs
      else if is_linebreak c then cur # splitlines_from [] (d # cs)
      else splitlines_from (cur @ [c]) (d # cs))"

definition splitlines :: "pystr \<Rightarrow> pystr list" where
  \<comment> \<open>\<open>output.splitlines()\<close>: CR LF is one boundary, the boundaries are dropped, and a
      final boundary opens no further line.\<close>
  "splitlines s = splitlines_from [] s"

fun split_from :: "pystr \<Rightarrow> pystr \<Rightarrow> pystr list" where
  "split_from cur [] = (if cur = [] then [] else [cur])"
| "split_from cur (c # cs) =
     (if isspace c then (if cur = [] then split_from [] cs else cur # split_from [] cs)
      else split_from (cur @ [c]) cs)"

definition str_split :: "pystr \<Rightarrow> pystr list" where
  \<comment> \<open>\<open>cmd.split()\<close>: the maximal runs of non-whitespace, in order.\<close>
  "str_split s = split_from [] s"

definition strip :: "pystr \<Rightarrow> pystr" where
  \<comment> \<open>\<open>line.strip()\<close>\<close>
  "strip s = rev (dropWhile isspace (rev (dropWhile isspace s)))"

fun contains :: "pystr \<Rightarrow> pystr \<Rightarrow> bool" where
  \<comment> \<open>\<open>sub in s\<close> on \<open>str\<close>\<close>
  "contains sub [] = (sub = [])"
| "contains sub (c # cs) = (prefix sub (c # cs) \<or> contains sub cs)"

definition dirname :: "pystr \<Rightarrow> pystr" where
  \<comment> \<open>\<open>os.path.dirname\<close> of \<open>posixpath\<close>: the text up to the last slash, with the
      trailing slashes removed unless it consists of slashes only.\<close>
  "dirname p =
     (let head = rev (dropWhile (\<lambda>c. c \<noteq> 47) (rev p))
      in if head \<noteq> [] \<and> \<not> (\<forall>c \<in> set head. c = 47)
         then rev (dropWhile (\<lambda>c. c = 47) (rev head)) else head)"

section \<open>The tool table\<close>

type_synonym tool = "pystr \<times> pystr"

definition TOOL_ESTIMATES :: "pystr \<rightharpoonup> int" where
  "TOOL_ESTIMATES = map_of
     [(py ''assetfinder'', 5), (py ''subfinder'', 7), (py ''findomain'', 5),
      (py ''theHarvester'', 10), (py ''amass'', 15), (py ''sublist3r'', 10),
      (py ''dnsrecon'', 25), (py ''dnsenum'', 30), (py ''fierce'', 30),
      (py ''gobuster'', 35), (py ''massdns'', 40)]"

definition estimate_total_time :: "tool list \<Rightarrow> int" where
  "estimate_total_time tool_list =
     sum_list (map (\<lambda>tool. case TOOL_ESTIMATES (fst tool) of Some v \<Rightarrow> v | None \<Rightarrow> 10) tool_list)"

definition all_tools :: "pystr \<Rightarrow> tool list" where
  "all_tools domain =
     [(py ''assetfinder'', py ''assetfinder --subs-only '' @ domain),
      (py ''subfinder'', py ''subfinder -d '' @ domain),
      (py ''findomain'', py ''findomain -t '' @ domain @ py '' -u -''),
      (py ''theHarvester'', py ''theHarvester -d '' @ domain @ py '' -b all''),
      (py ''amass'', py ''amass enum -passive -d '' @ domain),
      (py ''sublist3r'', py ''python3 /usr/local/bin/sublist3r -d '' @ domain),
      (py ''dnsrecon'', py ''dnsrecon -d '' @ domain),
      (py ''dnsenum'', py ''dnsenum '' @ domain),
      (py ''fierce'', py ''fierce --domain '' @ domain),
      (py ''gobuster'',
         py ''gobuster dns -d '' @ domain @ py '' -w /usr/share/wordlists/dirb/common.txt -q''),
      (py ''massdns'', py ''massdns -r /etc/resolv.conf -t A -o S -w massdns.txt '' @ domain)]"

definition fast_tools :: "pystr list" where
  "fast_tools = [py ''assetfinder'', py ''subfinder'', py ''findomain'', py ''theHarvester'',
                 py ''amass'', py ''sublist3r'']"

definition fast_phase :: "pystr \<Rightarrow> tool list" where
  "fast_phase domain = filter (\<lambda>t. fst t \<in> set fast_tools) (all_tools domain)"

definition slow_phase :: "pystr \<Rightarrow> tool list" where
  "slow_phase domain = filter (\<lambda>t. fst t \<notin> set fast_tools) (all_tools domain)"

section \<open>The environment\<close>

text \<open>
  What the operating system and the Python library answer is a parameter of the model:
  \<open>which\<close> is \<open>shutil.which\<close>; \<open>check_output\<close> is the call
  \<open>subprocess.check_output(cmd, shell=True, stderr=DEVNULL, timeout=180)\<close>, which returns
  the bytes of standard output or raises; \<open>decode\<close> is \<open>bytes.decode("utf-8",
  errors="ignore")\<close>, which cannot raise; \<open>elapsed\<close> is the reading
  \<open>int(time.time() - start)\<close> when the tool of that name has finished; \<open>mkdir_tree\<close>
  is what \<open>os.makedirs(name, exist_ok=True)\<close> does on a non-empty name, and \<open>open_w\<close>
  whether \<open>open(path, "w")\<close> succeeds (\<open>None\<close>: no exception).
\<close>

datatype pyexn =
    IndexError
  | TimeoutExpired
  | CalledProcessError int
  | FileNotFoundError
  | OtherException pystr

record os_env =
  which :: "pystr \<Rightarrow> pystr option"
  check_output :: "pystr \<Rightarrow> pyexn + nat list"
  decode :: "nat list \<Rightarrow> pystr"
  elapsed :: "pystr \<Rightarrow> int"
  mkdir_tree :: "pystr \<Rightarrow> pyexn option"
  open_w :: "pystr \<Rightarrow> pyexn option"

section \<open>The task runner\<close>

datatype log_event =
    Info_Running pystr
  | Warn_not_found pystr
  | Info_Finished pystr int
  | Warn_timed_out pystr
  | Error_failed pystr pyexn
  | Info_phase nat int

text \<open>
  The state that \<open>run_tool\<close> acts on: the shared \<open>Queue\<close> of (name, output) pairs,
  the messages logged so far, and the command lines handed to a subprocess so far.
\<close>

record rt_state =
  output_q :: "(pystr \<times> pystr) list"
  logged :: "log_event list"
  spawned :: "pystr list"

definition say :: "log_event \<Rightarrow> rt_state \<Rightarrow> rt_state" where
  "say ev st = st\<lparr>logged := logged st @ [ev]\<rparr>"

definition run_tool :: "os_env \<Rightarrow> pystr \<Rightarrow> pystr \<Rightarrow> rt_state \<Rightarrow> (pyexn \<times> rt_state) + rt_state" where
  \<comment> \<open>\<open>Inl\<close>: the exception that leaves \<open>run_tool\<close>, with the state at that moment.
      \<open>cmd.split()[0]\<close> stands before the \<open>try\<close>, so its \<open>IndexError\<close> is not caught.\<close>
  "run_tool env name cmd st =
     (let st1 = say (Info_Running name) st in
      case str_split cmd of
        [] \<Rightarrow> Inl (IndexError, st1)
      | exe # _ \<Rightarrow>
          if which env exe = None then Inr (say (Warn_not_found name) st1)
          else
            let st2 = st1\<lparr>spawned := spawned st1 @ [cmd]\<rparr> in
            (case check_output env cmd of
               Inr raw \<Rightarrow>
                 Inr (say (Info_Finished name (elapsed env name))
                        (st2\<lparr>output_q := output_q st2 @ [(name, decode env raw)]\<rparr>))
             | Inl e \<Rightarrow>
                 if e = TimeoutExpired then Inr (say (Warn_timed_out name) st2)
                 else Inr (say (Error_failed name e) st2)))"

text \<open>
  The terminal outcome of a task is what \<open>run_tool\<close> logs last for it; the source has no
  outcome value of its own.
\<close>

datatype status = ok | not_found | timed_out | failed

fun outcome_of :: "log_event \<Rightarrow> (pystr \<times> status) list" where
  "outcome_of (Info_Finished name _) = [(name, ok)]"
| "outcome_of (Warn_not_found name) = [(name, not_found)]"
| "outcome_of (Warn_timed_out name) = [(name, timed_out)]"
| "outcome_of (Error_failed name _) = [(name, failed)]"
| "outcome_of _ = []"

definition outcomes :: "rt_state \<Rightarrow> (pystr \<times> status) list" where
  "outcomes st = concat (map outcome_of (logged st))"

section \<open>The two phases\<close>

text \<open>
  Lines 105 to 113 of \<open>main\<close> as a transition system. The main thread submits the tools of
  a phase to a \<open>ThreadPoolExecutor\<close> in list order, then blocks in
  \<open>concurrent.futures.wait\<close> and in the executor's exit until every future is done. A worker
  takes the oldest queued tool when fewer than \<open>max_workers\<close> are running. A task's effect
  on the shared state is applied when it ends; an exception that leaves \<open>run_tool\<close> stays
  in its future, which nobody reads.
\<close>

datatype phase = Fast | Slow | After

datatype event = Started tool | Ended tool

record sched =
  pc :: phase
  unsubmitted :: "tool list"
  queued :: "tool list"
  running :: "tool list"
  completed :: "tool list"
  events :: "event list"
  shared :: rt_state

fun max_workers :: "phase \<Rightarrow> nat" where
  "max_workers Fast = 5"
| "max_workers Slow = 4"
| "max_workers After = 0"

definition effect :: "os_env \<Rightarrow> tool \<Rightarrow> rt_state \<Rightarrow> rt_state" where
  "effect env t st =
     (case run_tool env (fst t) (snd t) st of Inl (e, st') \<Rightarrow> st' | Inr st' \<Rightarrow> st')"

definition init :: "pystr \<Rightarrow> sched" where
  "init domain =
     \<lparr>pc = Fast, unsubmitted = fast_phase domain, queued = [], running = [], completed = [],
      events = [],
      shared = \<lparr>output_q = [],
                logged = [Info_phase 1 (estimate_total_time (fast_phase domain))],
                spawned = []\<rparr>\<rparr>"

inductive step :: "os_env \<Rightarrow> pystr \<Rightarrow> sched \<Rightarrow> sched \<Rightarrow> bool" for env domain where
  submit:
    "unsubmitted s = t # ts \<Longrightarrow>
     step env domain s (s\<lparr>unsubmitted := ts, queued := queued s @ [t]\<rparr>)"
| start:
    "queued s = t # ts \<Longrightarrow> length (running s) < max_workers (pc s) \<Longrightarrow>
     step env domain s (s\<lparr>queued := ts, running := running s @ [t],
                          events := events s @ [Started t]\<rparr>)"
| finish:
    "t \<in> set (running s) \<Longrightarrow>
     step env domain s (s\<lparr>running := remove1 t (running s), completed := completed s @ [t],
                          events := events s @ [Ended t],
                          shared := effect env t (shared s)\<rparr>)"
| next_phase:
    "pc s = Fast \<Longrightarrow> unsubmitted s = [] \<Longrightarrow> queued s = [] \<Longrightarrow> running s = [] \<Longrightarrow>
     step env domain s
       (s\<lparr>pc := Slow, unsubmitted := slow_phase domain,
          shared := say (Info_phase 2 (estimate_total_time (slow_phase domain))) (shared s)\<rparr>)"
| leave:
    "pc s = Slow \<Longrightarrow> unsubmitted s = [] \<Longrightarrow> queued s = [] \<Longrightarrow> running s = [] \<Longrightarrow>
     step env domain s (s\<lparr>pc := After\<rparr>)"

definition reachable :: "os_env \<Rightarrow> pystr \<Rightarrow> sched \<Rightarrow> bool" where
  "reachable env domain s \<longleftrightarrow> (step env domain)\<^sup>*\<^sup>* (init domain) s"

text \<open>One schedule among the possible ones: every task ends before the next is submitted.\<close>

definition one_by_one :: "os_env \<Rightarrow> tool list \<Rightarrow> sched \<Rightarrow> sched" where
  "one_by_one env ts s =
     s\<lparr>unsubmitted := [], completed := completed s @ ts,
       events := events s @ concat (map (\<lambda>t. [Started t, Ended t]) ts),
       shared := fold (effect env) ts (shared s)\<rparr>"

definition after_fast :: "os_env \<Rightarrow> pystr \<Rightarrow> sched" where
  "after_fast env domain =
     (let s = one_by_one env (fast_phase domain) (init domain)
      in s\<lparr>pc := Slow, unsubmitted := slow_phase domain,
           shared := say (Info_phase 2 (estimate_total_time (slow_phase domain))) (shared s)\<rparr>)"

definition in_turn :: "os_env \<Rightarrow> pystr \<Rightarrow> sched" where
  "in_turn env domain = (one_by_one env (slow_phase domain) (after_fast env domain))\<lparr>pc := After\<rparr>"

section \<open>Collecting and writing the results\<close>

definition keep_line :: "pystr \<Rightarrow> pystr \<Rightarrow> pystr set \<Rightarrow> pystr set" where
  \<comment> \<open>the body of the inner \<open>for\<close> loop\<close>
  "keep_line domain line all_results =
     (let line = strip line
      in if line \<noteq> [] \<and> contains domain line then insert line all_results else all_results)"

definition collect :: "pystr \<Rightarrow> (pystr \<times> pystr) list \<Rightarrow> pystr set" where
  \<comment> \<open>the \<open>while\<close> loop that drains the queue in first-in first-out order\<close>
  "collect domain q =
     fold (\<lambda>(name, output) all_results. fold (keep_line domain) (splitlines output) all_results)
       q {}"

definition file_text :: "pystr set \<Rightarrow> pystr" where
  \<comment> \<open>what the loop over \<open>sorted(all_results)\<close> writes\<close>
  "file_text all_results =
     concat (map (\<lambda>subdomain. subdomain @ [10]) (sorted_list_of_set all_results))"

definition os_makedirs :: "os_env \<Rightarrow> pystr \<Rightarrow> pyexn option" where
  \<comment> \<open>\<open>os.makedirs(name, exist_ok=True)\<close>: on the empty name \<open>mkdir\<close> fails with
      \<open>ENOENT\<close>, and since the empty name is no directory the error is raised again.\<close>
  "os_makedirs env name = (if name = [] then Some FileNotFoundError else mkdir_tree env name)"

type_synonym files = "pystr \<rightharpoonup> pystr"

definition save :: "os_env \<Rightarrow> pystr \<Rightarrow> pystr set \<Rightarrow> files \<Rightarrow> pyexn + files" where
  \<comment> \<open>lines 124 to 128; the file is written as text in an encoding that has every code
      point of the results (UTF-8)\<close>
  "save env output_file all_results fs =
     (case os_makedirs env (dirname output_file) of
        Some e \<Rightarrow> Inl e
      | None \<Rightarrow>
          (case open_w env output_file of
             Some e \<Rightarrow> Inl e
           | None \<Rightarrow> Inr (fs(output_file \<mapsto> file_text all_results))))"

definition finish_main :: "os_env \<Rightarrow> pystr \<Rightarrow> pystr \<Rightarrow> rt_state \<Rightarrow> files \<Rightarrow> pyexn + files" where
  \<comment> \<open>lines 115 to 128 of \<open>main\<close>, from the state the two phases leave\<close>
  "finish_main env domain output_file st fs = save env output_file (collect domain (output_q st)) fs"

inductive main :: "os_env \<Rightarrow> pystr \<Rightarrow> pystr \<Rightarrow> files \<Rightarrow> pyexn + files \<Rightarrow> bool" where
  "reachable env domain s \<Longrightarrow> pc s = After \<Longrightarrow>
   main env domain output_file fs (finish_main env domain output_file (shared s) fs)"

section \<open>Sample environments\<close>

text \<open>
  Concrete environments on which the definitions are evaluated. In \<open>demo_env\<close> only
  \<open>assetfinder\<close> and \<open>subfinder\<close> are installed, and every command prints the one line
  \<open>www.example.com\<close>; in \<open>stalled_env\<close> every executable is found and every command
  runs into the timeout; in \<open>broken_env\<close> every command exits with status 1.
\<close>

definition empty_state :: rt_state where
  "empty_state = \<lparr>output_q = [], logged = [], spawned = []\<rparr>"

definition demo_env :: os_env where
  "demo_env =
     \<lparr>which = (\<lambda>exe. if exe = py ''assetfinder'' \<or> exe = py ''subfinder''
                       then Some (py ''/usr/bin/'' @ exe) else None),
      check_output = (\<lambda>cmd. Inr (py ''www.example.com'' @ [10])),
      decode = (\<lambda>raw. raw),
      elapsed = (\<lambda>name. 1),
      mkdir_tree = (\<lambda>name. None),
      open_w = (\<lambda>path. None)\<rparr>"

definition stalled_env :: os_env where
  "stalled_env =
     \<lparr>which = (\<lambda>exe. Some (py ''/usr/bin/'' @ exe)),
      check_output = (\<lambda>cmd. Inl TimeoutExpired),
      decode = (\<lambda>raw. raw),
      elapsed = (\<lambda>name. 180),
      mkdir_tree = (\<lambda>name. None),
      open_w = (\<lambda>path. None)\<rparr>"

definition broken_env :: os_env where
  "broken_env =
     \<lparr>which = (\<lambda>exe. Some (py ''/usr/bin/'' @ exe)),
      check_output = (\<lambda>cmd. Inl (CalledProcessError 1)),
      decode = (\<lambda>raw. raw),
      elapsed = (\<lambda>name. 0),
      mkdir_tree = (\<lambda>name. None),
      open_w = (\<lambda>path. None)\<rparr>"

section \<open>Invariants of the two phases\<close>

definition puts :: "os_env \<Rightarrow> tool \<Rightarrow> (pystr \<times> pystr) list" where
  \<comment> \<open>what one run of the tool appends to the queue\<close>
  "puts env t = output_q (effect env t empty_state)"

definition barrier_inv :: "pystr \<Rightarrow> sched \<Rightarrow> bool" where
  "barrier_inv domain s \<longleftrightarrow>
     (\<forall>pre t post. events s = pre @ Started t # post \<longrightarrow> t \<in> set (slow_phase domain) \<longrightarrow>
        (\<forall>f \<in> set (fast_phase domain). Ended f \<in> set pre))
     \<and> (\<forall>t \<in> set (completed s). Ended t \<in> set (events s))
     \<and> (pc s = Fast \<longrightarrow>
          set (unsubmitted s) \<union> set (queued s) \<union> set (running s) \<subseteq> set (fast_phase domain)
          \<and> set (fast_phase domain)
               \<subseteq> set (unsubmitted s) \<union> set (queued s) \<union> set (running s) \<union> set (completed s))
     \<and> (pc s \<noteq> Fast \<longrightarrow> (\<forall>f \<in> set (fast_phase domain). Ended f \<in> set (events s)))"

definition accounted :: "os_env \<Rightarrow> pystr \<Rightarrow> sched \<Rightarrow> bool" where
  "accounted env domain s \<longleftrightarrow>
     output_q (shared s) = concat (map (puts env) (completed s))
     \<and> (pc s = Fast \<longrightarrow>
          mset (unsubmitted s) + mset (queued s) + mset (running s) + mset (completed s)
            = mset (fast_phase domain))
     \<and> (pc s \<noteq> Fast \<longrightarrow>
          mset (unsubmitted s) + mset (queued s) + mset (running s) + mset (completed s)
            = mset (fast_phase domain) + mset (slow_phase domain))
     \<and> (pc s = After \<longrightarrow> unsubmitted s = [] \<and> queued s = [] \<and> running s = [])"

section \<open>Lines in the narrow sense\<close>

text \<open>
  The reading of ``newline boundaries'' by the newline characters alone, for comparison with
  \<open>splitlines\<close>: the text is cut at every line feed and every carriage return, and at
  nothing else. A carriage return followed by a line feed leaves an empty piece between the
  two, which trimming discards.
\<close>

fun newline_pieces_from :: "pystr \<Rightarrow> pystr \<Rightarrow> pystr list" where
  "newline_pieces_from cur [] = [cur]"
| "newline_pieces_from cur (c # cs) =
     (if c = 10 \<or> c = 13 then cur # newline_pieces_from [] cs
      else newline_pieces_from (cur @ [c]) cs)"

definition newline_pieces :: "pystr \<Rightarrow> pystr list" where
  "newline_pieces s = newline_pieces_from [] s"

section \<open>The estimate of a phase\<close>

lemma estimate_Cons:
  "estimate_total_time (t # ts) =
     (case TOOL_ESTIMATES (fst t) of Some v \<Rightarrow> v | None \<Rightarrow> 10) + estimate_total_time ts"
  by (simp add: estimate_total_time_def)

lemma estimate_mset:
  "estimate_total_time ts =
     sum_mset (image_mset (\<lambda>tool. case TOOL_ESTIMATES (fst tool) of Some v \<Rightarrow> v | None \<Rightarrow> 10)
       (mset ts))"
  by (induction ts) (simp_all add: estimate_total_time_def)

lemma TOOL_ESTIMATES_values:
  "TOOL_ESTIMATES (py ''assetfinder'') = Some 5"
  "TOOL_ESTIMATES (py ''massdns'') = Some 40"
  "TOOL_ESTIMATES (py ''nmap'') = None"
  by (simp_all add: TOOL_ESTIMATES_def py_def)

lemma estimate_phases:
  "estimate_total_time (fast_phase domain) = 52"
  "estimate_total_time (slow_phase domain) = 160"
  by (simp_all add: estimate_total_time_def fast_phase_def slow_phase_def all_tools_def
      fast_tools_def TOOL_ESTIMATES_def py_def)

text \<open>
  C7: \<open>estimate_total_time\<close> is the sum, over the tools of the list, of the table's
  entry for the tool's name, and of 10 for a name that the table does not have. It is
  additive over concatenation (for any two lists, disjoint or not) and does not depend on
  the order of the list.
\<close>

theorem estimate_total_time_additive:
  "estimate_total_time [] = 0
   \<and> (\<forall>v. TOOL_ESTIMATES (fst t) = Some v \<longrightarrow>
          estimate_total_time (t # ts) = v + estimate_total_time ts)
   \<and> (TOOL_ESTIMATES (fst t) = None \<longrightarrow>
          estimate_total_time (t # ts) = 10 + estimate_total_time ts)
   \<and> estimate_total_time (A @ B) = estimate_total_time A + estimate_total_time B
   \<and> (mset A = mset B \<longrightarrow> estimate_total_time A = estimate_total_time B)"
proof -
  have perm: "mset A = mset B \<longrightarrow> estimate_total_time A = estimate_total_time B"
    by (simp add: estimate_mset)
  have app: "estimate_total_time (A @ B) = estimate_total_time A + estimate_total_time B"
    by (simp add: estimate_total_time_def)
  show ?thesis
    using perm app by (simp add: estimate_Cons estimate_total_time_def)
qed

theorem estimate_total_time_additive_witness:
  "TOOL_ESTIMATES (fst (py ''amass'', py ''amass enum'')) = Some 15
   \<and> estimate_total_time [(py ''amass'', py ''amass enum''), (py ''nmap'', py ''nmap x'')] = 25
   \<and> TOOL_ESTIMATES (fst (py ''nmap'', py ''nmap x'')) = None
   \<and> estimate_total_time [(py ''nmap'', py ''nmap x''), (py ''amass'', py ''amass enum'')] = 25
   \<and> mset [(py ''amass'', py ''amass enum''), (py ''nmap'', py ''nmap x'')]
       = mset [(py ''nmap'', py ''nmap x''), (py ''amass'', py ''amass enum'')]"
  using estimate_total_time_additive
    [of "(py ''amass'', py ''amass enum'')" "[(py ''nmap'', py ''nmap x'')]"
        "[(py ''amass'', py ''amass enum''), (py ''nmap'', py ''nmap x'')]"
        "[(py ''nmap'', py ''nmap x''), (py ''amass'', py ''amass enum'')]"]
    estimate_total_time_additive
    [of "(py ''nmap'', py ''nmap x'')" "[(py ''amass'', py ''amass enum'')]" "[]" "[]"]
  by (simp add: TOOL_ESTIMATES_def py_def estimate_total_time_def)

section \<open>Facts about the string operations\<close>

lemma splitlines_from_no_break:
  "l \<in> set (splitlines_from cur s) \<Longrightarrow> \<forall>c \<in> set cur. \<not> is_linebreak c \<Longrightarrow>
   \<forall>c \<in> set l. \<not> is_linebreak c"
proof (induction cur s rule: splitlines_from.induct)
  case (1 cur)
  then show ?case by (cases "cur = []") simp_all
next
  case (2 cur c)
  then show ?case by (cases "is_linebreak c") simp_all
next
  case (3 cur c d cs)
  show ?case
  proof (cases "c = 13 \<and> d = 10")
    case True
    with 3(4) have "l = cur \<or> l \<in> set (splitlines_from [] cs)" by simp
    then show ?thesis using 3(1) [OF True] 3(5) by auto
  next
    case nocrlf: False
    show ?thesis
    proof (cases "is_linebreak c")
      case True
      with 3(4) nocrlf have "l = cur \<or> l \<in> set (splitlines_from [] (d # cs))" by auto
      then show ?thesis using 3(2) [OF nocrlf True] 3(5) by auto
    next
      case False
      with 3(4) nocrlf have "l \<in> set (splitlines_from (cur @ [c]) (d # cs))" by auto
      then show ?thesis using 3(3) [OF nocrlf False] 3(5) False by auto
    qed
  qed
qed

lemma splitlines_no_break:
  "l \<in> set (splitlines s) \<Longrightarrow> c \<in> set l \<Longrightarrow> \<not> is_linebreak c"
  using splitlines_from_no_break [of l "[]" s] by (simp add: splitlines_def)

lemma is_linebreak_LF: "is_linebreak 10"
  by (simp add: is_linebreak_def)

lemma is_linebreak_CR: "is_linebreak 13"
  by (simp add: is_linebreak_def)

lemma splitlines_from_line:
  "\<forall>c \<in> set l. \<not> is_linebreak c \<Longrightarrow>
   splitlines_from cur (l @ 10 # rest) = (cur @ l) # splitlines_from [] rest"
proof (induction l arbitrary: cur)
  case Nil
  show ?case by (cases rest) (simp_all add: is_linebreak_LF)
next
  case (Cons a l)
  from Cons.prems have a: "\<not> is_linebreak a" and l: "\<forall>c \<in> set l. \<not> is_linebreak c"
    by simp_all
  from a have a13: "a \<noteq> 13" using is_linebreak_CR by blast
  obtain d ds where dd: "l @ 10 # rest = d # ds" by (cases "l @ 10 # rest") auto
  have "splitlines_from cur ((a # l) @ 10 # rest) = splitlines_from cur (a # d # ds)"
    using dd by simp
  also have "\<dots> = splitlines_from (cur @ [a]) (d # ds)" using a a13 by simp
  also have "\<dots> = splitlines_from (cur @ [a]) (l @ 10 # rest)" using dd by simp
  also have "\<dots> = ((cur @ [a]) @ l) # splitlines_from [] rest" by (rule Cons.IH [OF l])
  finally show ?case by simp
qed

lemma splitlines_written:
  "\<forall>l \<in> set ls. \<forall>c \<in> set l. \<not> is_linebreak c \<Longrightarrow>
   splitlines (concat (map (\<lambda>l. l @ [10]) ls)) = ls"
proof (induction ls)
  case Nil
  show ?case by (simp add: splitlines_def)
next
  case (Cons l ls)
  then show ?case
    using splitlines_from_line [of l "[]" "concat (map (\<lambda>l. l @ [10]) ls)"]
    by (simp add: splitlines_def)
qed

lemma splitlines_from_infix:
  "l \<in> set (splitlines_from cur s) \<Longrightarrow> \<exists>pre suf. cur @ s = pre @ l @ suf"
proof (induction cur s rule: splitlines_from.induct)
  case (1 cur)
  then show ?case by (auto split: if_splits intro: exI [of _ "[]"])
next
  case (2 cur c)
  then show ?case
    by (auto split: if_splits intro: exI [of _ "[]"])
next
  case (3 cur c d cs)
  show ?case
  proof (cases "c = 13 \<and> d = 10")
    case True
    with 3 have "l = cur \<or> l \<in> set (splitlines_from [] cs)" by simp
    then show ?thesis
    proof
      assume "l = cur"
      then have "cur @ c # d # cs = [] @ l @ (c # d # cs)" by simp
      then show ?thesis by blast
    next
      assume "l \<in> set (splitlines_from [] cs)"
      with 3(1) True obtain pre suf where "cs = pre @ l @ suf" by auto
      then have "cur @ c # d # cs = (cur @ c # d # pre) @ l @ suf" by simp
      then show ?thesis by blast
    qed
  next
    case nocrlf: False
    show ?thesis
    proof (cases "is_linebreak c")
      case True
      with 3 nocrlf have "l = cur \<or> l \<in> set (splitlines_from [] (d # cs))" by auto
      then show ?thesis
      proof
        assume "l = cur"
        then have "cur @ c # d # cs = [] @ l @ (c # d # cs)" by simp
        then show ?thesis by blast
      next
        assume "l \<in> set (splitlines_from [] (d # cs))"
        with 3(2) nocrlf True obtain pre suf where "d # cs = pre @ l @ suf" by auto
        then have "cur @ c # d # cs = (cur @ c # pre) @ l @ suf" by simp
        then show ?thesis by blast
      qed
    next
      case False
      with 3 nocrlf have "l \<in> set (splitlines_from (cur @ [c]) (d # cs))" by auto
      with 3(3) nocrlf False show ?thesis by auto
    qed
  qed
qed

lemma strip_decomp:
  "\<exists>pre suf. s = pre @ strip s @ suf \<and> (\<forall>c \<in> set pre. isspace c) \<and> (\<forall>c \<in> set suf. isspace c)"
proof -
  define a where "a = takeWhile isspace s"
  define m where "m = dropWhile isspace s"
  define b where "b = takeWhile isspace (rev m)"
  define r where "r = dropWhile isspace (rev m)"
  have 1: "s = a @ m" by (simp add: a_def m_def)
  have "rev m = b @ r" by (simp add: b_def r_def)
  then have "rev (rev m) = rev (b @ r)" by (rule arg_cong)
  then have 2: "m = rev r @ rev b" by (simp only: rev_rev_ident rev_append)
  have 3: "strip s = rev r" by (simp add: strip_def r_def m_def)
  have "s = a @ strip s @ rev b" using 1 2 3 by simp
  moreover have "\<forall>c \<in> set a. isspace c" by (auto simp: a_def dest: set_takeWhileD)
  moreover have "\<forall>c \<in> set (rev b). isspace c" by (auto simp: b_def dest: set_takeWhileD)
  ultimately show ?thesis by blast
qed

lemma strip_ends:
  assumes ne: "strip s \<noteq> []"
  shows "\<not> isspace (hd (strip s)) \<and> \<not> isspace (last (strip s))"
proof -
  define m where "m = dropWhile isspace s"
  define b where "b = takeWhile isspace (rev m)"
  define r where "r = dropWhile isspace (rev m)"
  have 3: "strip s = rev r" by (simp add: strip_def r_def m_def)
  with ne have r: "r \<noteq> []" by simp
  then have "\<not> isspace (hd r)" unfolding r_def by (rule hd_dropWhile)
  then have l: "\<not> isspace (last (strip s))" using r 3 by (simp add: last_rev)
  have "rev m = b @ r" by (simp add: b_def r_def)
  then have "rev (rev m) = rev (b @ r)" by (rule arg_cong)
  then have 2: "m = rev r @ rev b" by (simp only: rev_rev_ident rev_append)
  with r have m: "m \<noteq> []" by simp
  then have "\<not> isspace (hd m)" unfolding m_def by (rule hd_dropWhile)
  moreover have "hd m = hd (rev r)" using 2 r by simp
  ultimately show ?thesis using l 3 by simp
qed

lemma strip_subset: "set (strip s) \<subseteq> set s"
  using strip_decomp [of s] by (metis Un_upper1 Un_upper2 set_append subset_trans)

lemma contains_iff: "contains sub s \<longleftrightarrow> (\<exists>ps ss. s = ps @ sub @ ss)"
proof (induction s)
  case Nil
  show ?case by auto
next
  case (Cons c cs)
  show ?case
  proof
    assume "contains sub (c # cs)"
    then consider "prefix sub (c # cs)" | "contains sub cs" by auto
    then show "\<exists>ps ss. c # cs = ps @ sub @ ss"
    proof cases
      case 1
      then obtain ss where "c # cs = [] @ sub @ ss" by (auto simp: prefix_def)
      then show ?thesis by blast
    next
      case 2
      with Cons obtain ps ss where "cs = ps @ sub @ ss" by auto
      then have "c # cs = (c # ps) @ sub @ ss" by simp
      then show ?thesis by blast
    qed
  next
    assume "\<exists>ps ss. c # cs = ps @ sub @ ss"
    then obtain ps ss where e: "c # cs = ps @ sub @ ss" by auto
    show "contains sub (c # cs)"
    proof (cases ps)
      case Nil
      with e have "c # cs = sub @ ss" by simp
      then have "prefix sub (c # cs)" by (rule prefixI)
      then show ?thesis by simp
    next
      case (Cons p ps')
      with e have "cs = ps' @ sub @ ss" by simp
      with Cons.IH show ?thesis by auto
    qed
  qed
qed

section \<open>Facts about the collector\<close>

lemma fold_keep_line:
  "fold (keep_line domain) ls A =
     A \<union> {strip raw | raw. raw \<in> set ls \<and> strip raw \<noteq> [] \<and> contains domain (strip raw)}"
proof (induction ls arbitrary: A)
  case Nil
  show ?case by simp
next
  case (Cons x xs)
  show ?case
    unfolding fold_simps Cons.IH
    by (auto simp: keep_line_def Let_def)
qed

lemma fold_collect:
  "fold (\<lambda>(name, output) all_results. fold (keep_line domain) (splitlines output) all_results) q A =
     A \<union> (\<Union>(name, output) \<in> set q.
            {strip raw | raw. raw \<in> set (splitlines output) \<and> strip raw \<noteq> []
               \<and> contains domain (strip raw)})"
proof (induction q arbitrary: A)
  case Nil
  show ?case by simp
next
  case (Cons x xs)
  obtain n out where x: "x = (n, out)" by (cases x)
  show ?case
    unfolding fold_simps Cons.IH x
    by (simp add: fold_keep_line Un_assoc)
qed

lemma collect_eq:
  "collect domain q =
     (\<Union>(name, output) \<in> set q.
        {strip raw | raw. raw \<in> set (splitlines output) \<and> strip raw \<noteq> []
           \<and> contains domain (strip raw)})"
  by (simp add: collect_def fold_collect)

lemma collect_iff:
  "l \<in> collect domain q \<longleftrightarrow>
     (\<exists>name output raw. (name, output) \<in> set q \<and> raw \<in> set (splitlines output)
        \<and> l = strip raw \<and> l \<noteq> [] \<and> contains domain l)"
  unfolding collect_eq by auto

lemma collect_append: "collect domain (q @ q') = collect domain q \<union> collect domain q'"
  unfolding collect_eq by auto

lemma collect_set_cong: "set q = set q' \<Longrightarrow> collect domain q = collect domain q'"
  unfolding collect_eq by simp

lemma finite_collect: "finite (collect domain q)"
  unfolding collect_eq by (rule finite_UN_I) (auto split: prod.splits)

lemma collect_no_break: "l \<in> collect domain q \<Longrightarrow> c \<in> set l \<Longrightarrow> \<not> is_linebreak c"
  unfolding collect_iff using strip_subset splitlines_no_break by blast

lemma file_lines:
  "splitlines (file_text (collect domain q)) = sorted_list_of_set (collect domain q)"
  unfolding file_text_def
  by (rule splitlines_written) (auto simp: finite_collect dest: collect_no_break)

lemma sorted_results:
  "sorted_wrt (<) (sorted_list_of_set (collect domain q))"
  "distinct (sorted_list_of_set (collect domain q))"
  "set (sorted_list_of_set (collect domain q)) = collect domain q"
  by (simp_all add: finite_collect strict_sorted_iff [symmetric])

lemma count_list_distinct: "distinct xs \<Longrightarrow> x \<in> set xs \<Longrightarrow> count_list xs x = 1"
  by (induction xs) (auto simp: count_list_0_iff)

text \<open>
  C1, as stated with lines cut on newline boundaries, fails on an output that holds another
  of the line boundaries of \<open>splitlines\<close>: from the output \<open>junk\<close>, file separator
  (code point 28), \<open>www.example.com\<close>, line feed, the line \<open>www.example.com\<close> is
  collected, and it is not the trimmed form of any piece between newlines, the only
  non-empty one being the whole of \<open>junk\<close>, file separator, \<open>www.example.com\<close>.
\<close>

theorem collected_line_not_newline_piece:
  "py ''www.example.com''
     \<in> collect (py ''example.com'')
         [(py ''amass'', py ''junk'' @ [28] @ py ''www.example.com'' @ [10])]
   \<and> py ''www.example.com''
     \<notin> set (map strip (newline_pieces (py ''junk'' @ [28] @ py ''www.example.com'' @ [10])))"
proof -
  have c: "collect (py ''example.com'')
      [(py ''amass'', py ''junk'' @ [28] @ py ''www.example.com'' @ [10])]
      = {py ''www.example.com''}"
    by (simp add: collect_def keep_line_def py_def splitlines_def is_linebreak_def strip_def
        isspace_def)
  have n: "newline_pieces (py ''junk'' @ [28] @ py ''www.example.com'' @ [10])
      = [py ''junk'' @ [28] @ py ''www.example.com'', []]"
    by (simp add: newline_pieces_def py_def)
  have s: "strip (py ''junk'' @ [28] @ py ''www.example.com'')
      = py ''junk'' @ [28] @ py ''www.example.com''"
    "strip [] = []"
    by (simp_all add: strip_def py_def isspace_def)
  have d: "py ''www.example.com'' \<noteq> py ''junk'' @ [28] @ py ''www.example.com''"
    "py ''www.example.com'' \<noteq> []"
    by (simp_all add: py_def)
  show ?thesis
    unfolding c n using s d by simp
qed

text \<open>
  C1, amended: a line is in the result set exactly when it is the \<open>strip\<close> of one of the
  pieces that \<open>splitlines\<close> cuts from a queued output, is not empty, and has the domain
  as a contiguous run of its code points; nothing else is done to the line. The pieces are
  cut at every line boundary of \<open>str.splitlines\<close>, that is at line feed, carriage
  return, carriage return with line feed, vertical tab, form feed, file, group and record
  separator, next line, line separator and paragraph separator. The lines of the written
  text are the lines of the result set.
\<close>

theorem collected_lines:
  "(l \<in> collect domain q \<longleftrightarrow>
      (\<exists>name output raw. (name, output) \<in> set q \<and> raw \<in> set (splitlines output)
         \<and> l = strip raw \<and> l \<noteq> [] \<and> (\<exists>ps ss. l = ps @ domain @ ss)))
   \<and> (l \<in> set (splitlines (file_text (collect domain q))) \<longleftrightarrow> l \<in> collect domain q)"
  by (simp add: collect_iff contains_iff file_lines sorted_results)

theorem collected_lines_witness:
  "py ''www.example.com'' \<in> collect (py ''example.com'')
      [(py ''assetfinder'',
        py ''  www.example.com '' @ [10] @ py ''WWW.EXAMPLE.COM'' @ [13, 10]
          @ py ''www.example.com.'' @ [10] @ py ''other.org'' @ [10, 10])]
   \<and> py ''www.example.com'' \<in> set (splitlines (file_text (collect (py ''example.com'')
      [(py ''assetfinder'',
        py ''  www.example.com '' @ [10] @ py ''WWW.EXAMPLE.COM'' @ [13, 10]
          @ py ''www.example.com.'' @ [10] @ py ''other.org'' @ [10, 10])])))
   \<and> py ''WWW.EXAMPLE.COM'' \<notin> set (splitlines (file_text (collect (py ''example.com'')
      [(py ''assetfinder'',
        py ''  www.example.com '' @ [10] @ py ''WWW.EXAMPLE.COM'' @ [13, 10]
          @ py ''www.example.com.'' @ [10] @ py ''other.org'' @ [10, 10])])))"
proof -
  let ?q = "[(py ''assetfinder'',
        py ''  www.example.com '' @ [10] @ py ''WWW.EXAMPLE.COM'' @ [13, 10]
          @ py ''www.example.com.'' @ [10] @ py ''other.org'' @ [10, 10])]"
  have c: "collect (py ''example.com'') ?q = {py ''www.example.com'', py ''www.example.com.''}"
    by (simp add: collect_def keep_line_def py_def splitlines_def is_linebreak_def strip_def
        isspace_def insert_commute)
  have 1: "py ''www.example.com'' \<in> collect (py ''example.com'') ?q"
    unfolding c by simp
  have 2: "py ''WWW.EXAMPLE.COM'' \<notin> collect (py ''example.com'') ?q"
    unfolding c by (simp add: py_def)
  show ?thesis
    using 1 2 collected_lines [of "py ''www.example.com''" "py ''example.com''" ?q]
      collected_lines [of "py ''WWW.EXAMPLE.COM''" "py ''example.com''" ?q]
    by blast
qed

text \<open>
  C2: a line that two queued outputs both yield after trimming, whatever the names of the
  tools, occurs exactly once among the lines of the written text; with domain
  \<open>example.com\<close> and two outputs that consist of the line \<open>www.example.com\<close>, the
  written text is that one line.
\<close>

theorem duplicate_lines_collapse:
  "((name1, output1) \<in> set q \<and> (name2, output2) \<in> set q
      \<and> raw1 \<in> set (splitlines output1) \<and> raw2 \<in> set (splitlines output2)
      \<and> strip raw1 = l \<and> strip raw2 = l \<and> l \<noteq> [] \<and> contains domain l
    \<longrightarrow> count_list (splitlines (file_text (collect domain q))) l = 1)
   \<and> file_text (collect (py ''example.com'')
        [(name1, py ''www.example.com'' @ [10]), (name2, py ''www.example.com'' @ [10])])
       = py ''www.example.com'' @ [10]"
proof -
  have "count_list (splitlines (file_text (collect domain q))) l = 1"
    if "(name1, output1) \<in> set q" "raw1 \<in> set (splitlines output1)" "strip raw1 = l"
      "l \<noteq> []" "contains domain l"
  proof -
    from that have "l \<in> collect domain q" unfolding collect_iff by blast
    then show ?thesis
      by (simp add: file_lines count_list_distinct sorted_results)
  qed
  moreover have "file_text (collect (py ''example.com'')
        [(name1, py ''www.example.com'' @ [10]), (name2, py ''www.example.com'' @ [10])])
       = py ''www.example.com'' @ [10]"
    by (simp add: collect_def keep_line_def py_def splitlines_def is_linebreak_def strip_def
        isspace_def file_text_def)
  ultimately show ?thesis by blast
qed

theorem duplicate_lines_collapse_witness:
  "count_list (splitlines (file_text (collect (py ''example.com'')
      [(py ''assetfinder'', py ''www.example.com'' @ [10] @ py ''mail.example.com'' @ [10]),
       (py ''subfinder'', py '' www.example.com'' @ [13, 10])]))) (py ''www.example.com'') = 1"
proof -
  have 1: "py ''www.example.com'' \<in> set (splitlines (py ''www.example.com'' @ [10] @ py ''mail.example.com'' @ [10]))"
    by (simp add: py_def splitlines_def is_linebreak_def)
  have 2: "py '' www.example.com'' \<in> set (splitlines (py '' www.example.com'' @ [13, 10]))"
    by (simp add: py_def splitlines_def is_linebreak_def)
  have 3: "strip (py ''www.example.com'') = py ''www.example.com''"
    "strip (py '' www.example.com'') = py ''www.example.com''"
    by (simp_all add: py_def strip_def isspace_def)
  have 4: "contains (py ''example.com'') (py ''www.example.com'')" "py ''www.example.com'' \<noteq> []"
    by (simp_all add: py_def)
  show ?thesis
    using duplicate_lines_collapse [of "py ''assetfinder''"
        "py ''www.example.com'' @ [10] @ py ''mail.example.com'' @ [10]"
        "[(py ''assetfinder'', py ''www.example.com'' @ [10] @ py ''mail.example.com'' @ [10]),
          (py ''subfinder'', py '' www.example.com'' @ [13, 10])]"
        "py ''subfinder''" "py '' www.example.com'' @ [13, 10]"
        "py ''www.example.com''" "py '' www.example.com''" "py ''www.example.com''"
        "py ''example.com''"] 1 2 3 4
    by simp
qed

section \<open>The written file\<close>

lemma collect_nonempty: "l \<in> collect domain q \<Longrightarrow> l \<noteq> []"
  unfolding collect_iff by blast

lemma finish_main_Inr:
  "finish_main env domain output_file st fs = Inr fs' \<Longrightarrow>
   fs' = fs(output_file \<mapsto> file_text (collect domain (output_q st)))"
  by (auto simp: finish_main_def save_def split: option.splits)

text \<open>
  C3: when the write succeeds, the file at the destination path holds, whatever it held
  before, the results in strictly ascending order, each followed by a line feed; every
  result is there, none is empty and none has a line boundary inside, so the lines of the
  file are exactly the sorted results and no line is blank. No other file changes.
\<close>

theorem output_file_sorted:
  "finish_main env domain output_file st fs = Inr fs' \<Longrightarrow>
   fs' = fs(output_file \<mapsto>
            concat (map (\<lambda>l. l @ [10]) (sorted_list_of_set (collect domain (output_q st)))))
   \<and> sorted_wrt (<) (sorted_list_of_set (collect domain (output_q st)))
   \<and> set (sorted_list_of_set (collect domain (output_q st))) = collect domain (output_q st)
   \<and> (\<forall>l \<in> set (sorted_list_of_set (collect domain (output_q st))).
         l \<noteq> [] \<and> (\<forall>c \<in> set l. \<not> is_linebreak c))
   \<and> splitlines (concat (map (\<lambda>l. l @ [10])
         (sorted_list_of_set (collect domain (output_q st)))))
       = sorted_list_of_set (collect domain (output_q st))"
proof -
  assume "finish_main env domain output_file st fs = Inr fs'"
  then have "fs' = fs(output_file \<mapsto> file_text (collect domain (output_q st)))"
    by (rule finish_main_Inr)
  moreover have "\<forall>l \<in> set (sorted_list_of_set (collect domain (output_q st))).
         l \<noteq> [] \<and> (\<forall>c \<in> set l. \<not> is_linebreak c)"
    unfolding sorted_results using collect_nonempty collect_no_break by blast
  moreover have "splitlines (file_text (collect domain (output_q st)))
       = sorted_list_of_set (collect domain (output_q st))"
    by (rule file_lines)
  ultimately show ?thesis
    by (simp add: sorted_results file_text_def)
qed

theorem output_file_sorted_witness:
  "finish_main demo_env (py ''example.com'') (py ''out/subs.txt'')
      (empty_state\<lparr>output_q :=
          [(py ''subfinder'', py ''b.example.com'' @ [10] @ py ''a.example.com'' @ [10]),
           (py ''assetfinder'', py ''a.example.com'' @ [10, 10])]\<rparr>)
      [py ''out/subs.txt'' \<mapsto> py ''stale'']
    = Inr [py ''out/subs.txt'' \<mapsto> py ''a.example.com'' @ [10] @ py ''b.example.com'' @ [10]]
   \<and> sorted_wrt (<) [py ''a.example.com'', py ''b.example.com'']"
proof -
  let ?st = "empty_state\<lparr>output_q :=
          [(py ''subfinder'', py ''b.example.com'' @ [10] @ py ''a.example.com'' @ [10]),
           (py ''assetfinder'', py ''a.example.com'' @ [10, 10])]\<rparr>"
  have c: "collect (py ''example.com'') (output_q ?st) = {py ''a.example.com'', py ''b.example.com''}"
    by (simp add: collect_def keep_line_def py_def splitlines_def is_linebreak_def strip_def
        isspace_def insert_commute)
  have s: "sorted_list_of_set {py ''a.example.com'', py ''b.example.com''}
             = [py ''a.example.com'', py ''b.example.com'']"
    by (simp add: py_def)
  have d: "dirname (py ''out/subs.txt'') = py ''out''"
    by (simp add: dirname_def py_def)
  have h: "finish_main demo_env (py ''example.com'') (py ''out/subs.txt'') ?st
      [py ''out/subs.txt'' \<mapsto> py ''stale'']
    = Inr [py ''out/subs.txt'' \<mapsto> py ''a.example.com'' @ [10] @ py ''b.example.com'' @ [10]]"
    unfolding finish_main_def save_def c d file_text_def s
    by (simp add: os_makedirs_def demo_env_def py_def)
  show ?thesis
    using output_file_sorted [OF h] h unfolding c s by simp
qed

text \<open>
  C9: two queues that hold the same (name, output) pairs in different orders give the same
  text and the same outcome of the write.
\<close>

theorem output_order_independent:
  "mset q = mset q' \<Longrightarrow>
   file_text (collect domain q) = file_text (collect domain q')
   \<and> finish_main env domain output_file (st\<lparr>output_q := q\<rparr>) fs
       = finish_main env domain output_file (st\<lparr>output_q := q'\<rparr>) fs"
proof -
  assume "mset q = mset q'"
  then have "set q = set q'" by (rule mset_eq_setD)
  then have "collect domain q = collect domain q'" by (rule collect_set_cong)
  then show ?thesis by (simp add: finish_main_def)
qed

theorem output_order_independent_witness:
  "file_text (collect (py ''example.com'')
      [(py ''subfinder'', py ''b.example.com'' @ [10]), (py ''amass'', py ''a.example.com'' @ [10])])
   = file_text (collect (py ''example.com'')
      [(py ''amass'', py ''a.example.com'' @ [10]), (py ''subfinder'', py ''b.example.com'' @ [10])])"
proof -
  have "mset [(py ''subfinder'', py ''b.example.com'' @ [10]), (py ''amass'', py ''a.example.com'' @ [10])]
      = mset [(py ''amass'', py ''a.example.com'' @ [10]), (py ''subfinder'', py ''b.example.com'' @ [10])]"
    by simp
  from output_order_independent [OF this] show ?thesis by simp
qed

section \<open>Facts about the task runner\<close>

lemma split_from_Nil_iff: "split_from cur s = [] \<longleftrightarrow> cur = [] \<and> (\<forall>c \<in> set s. isspace c)"
  by (induction s arbitrary: cur) simp_all

lemma split_from_first:
  "split_from cur s = tok # rest \<Longrightarrow>
   tok = (if cur = [] then takeWhile (\<lambda>c. \<not> isspace c) (dropWhile isspace s)
          else cur @ takeWhile (\<lambda>c. \<not> isspace c) s)"
proof (induction s arbitrary: cur)
  case Nil
  then show ?case by (cases "cur = []") simp_all
next
  case (Cons c cs)
  show ?case
  proof (cases "isspace c")
    case True
    show ?thesis
    proof (cases "cur = []")
      case True
      with \<open>isspace c\<close> Cons.prems have "split_from [] cs = tok # rest" by simp
      from Cons.IH [OF this] True \<open>isspace c\<close> show ?thesis by simp
    next
      case False
      with \<open>isspace c\<close> Cons.prems show ?thesis by simp
    qed
  next
    case False
    with Cons.prems have "split_from (cur @ [c]) cs = tok # rest" by simp
    from Cons.IH [OF this] False show ?thesis by simp
  qed
qed

lemma str_split_Nil_iff: "str_split s = [] \<longleftrightarrow> (\<forall>c \<in> set s. isspace c)"
  by (simp add: str_split_def split_from_Nil_iff)

lemma str_split_first:
  assumes "str_split s = tok # rest"
  shows "tok = takeWhile (\<lambda>c. \<not> isspace c) (dropWhile isspace s)" and "tok \<noteq> []"
proof -
  from assms show t: "tok = takeWhile (\<lambda>c. \<not> isspace c) (dropWhile isspace s)"
    using split_from_first [of "[]" s tok rest] by (simp add: str_split_def)
  from assms have "\<not> (\<forall>c \<in> set s. isspace c)"
    using str_split_Nil_iff [of s] by simp
  then have ne: "dropWhile isspace s \<noteq> []" by simp
  then have "\<not> isspace (hd (dropWhile isspace s))" by (rule hd_dropWhile)
  with ne t show "tok \<noteq> []" by (cases "dropWhile isspace s") simp_all
qed

lemma str_split_token:
  "\<exists>c \<in> set s. \<not> isspace c \<Longrightarrow> \<exists>tok rest. str_split s = tok # rest"
  using str_split_Nil_iff [of s] by (cases "str_split s") auto

lemma outcomes_say: "outcomes (say ev st) = outcomes st @ outcome_of ev"
  by (simp add: outcomes_def say_def)

lemma say_fields:
  "output_q (say ev st) = output_q st" "spawned (say ev st) = spawned st"
  by (simp_all add: say_def)

lemma outcomes_update:
  "outcomes (st\<lparr>spawned := sp\<rparr>) = outcomes st"
  "outcomes (st\<lparr>output_q := q\<rparr>) = outcomes st"
  by (simp_all add: outcomes_def)

lemma run_tool_raises:
  "str_split cmd = [] \<Longrightarrow> run_tool env name cmd st = Inl (IndexError, say (Info_Running name) st)"
  by (simp add: run_tool_def Let_def)

lemma run_tool_not_found:
  "str_split cmd = exe # rest \<Longrightarrow> which env exe = None \<Longrightarrow>
   run_tool env name cmd st = Inr (say (Warn_not_found name) (say (Info_Running name) st))"
  by (simp add: run_tool_def Let_def)

lemma run_tool_ok:
  "str_split cmd = exe # rest \<Longrightarrow> which env exe \<noteq> None \<Longrightarrow> check_output env cmd = Inr raw \<Longrightarrow>
   run_tool env name cmd st =
     Inr (say (Info_Finished name (elapsed env name))
           ((say (Info_Running name) st)
              \<lparr>spawned := spawned st @ [cmd], output_q := output_q st @ [(name, decode env raw)]\<rparr>))"
  by (auto simp: run_tool_def say_def Let_def)

lemma run_tool_timed_out:
  "str_split cmd = exe # rest \<Longrightarrow> which env exe \<noteq> None \<Longrightarrow>
   check_output env cmd = Inl TimeoutExpired \<Longrightarrow>
   run_tool env name cmd st =
     Inr (say (Warn_timed_out name) ((say (Info_Running name) st)\<lparr>spawned := spawned st @ [cmd]\<rparr>))"
  by (auto simp: run_tool_def say_def Let_def)

lemma run_tool_failed:
  "str_split cmd = exe # rest \<Longrightarrow> which env exe \<noteq> None \<Longrightarrow>
   check_output env cmd = Inl e \<Longrightarrow> e \<noteq> TimeoutExpired \<Longrightarrow>
   run_tool env name cmd st =
     Inr (say (Error_failed name e) ((say (Info_Running name) st)\<lparr>spawned := spawned st @ [cmd]\<rparr>))"
  by (auto simp: run_tool_def say_def Let_def)

text \<open>The four ways in which \<open>run_tool\<close> returns, and the one in which it raises.\<close>

lemma run_tool_cases:
  obtains
    (raises) "str_split cmd = []"
      "run_tool env name cmd st = Inl (IndexError, say (Info_Running name) st)"
  | (not_found) exe rest where "str_split cmd = exe # rest" "which env exe = None"
      "run_tool env name cmd st = Inr (say (Warn_not_found name) (say (Info_Running name) st))"
  | (ok) exe rest raw where "str_split cmd = exe # rest" "which env exe \<noteq> None"
      "check_output env cmd = Inr raw"
      "run_tool env name cmd st =
         Inr (say (Info_Finished name (elapsed env name))
           ((say (Info_Running name) st)
              \<lparr>spawned := spawned st @ [cmd], output_q := output_q st @ [(name, decode env raw)]\<rparr>))"
  | (timed_out) exe rest where "str_split cmd = exe # rest" "which env exe \<noteq> None"
      "check_output env cmd = Inl TimeoutExpired"
      "run_tool env name cmd st =
         Inr (say (Warn_timed_out name)
           ((say (Info_Running name) st)\<lparr>spawned := spawned st @ [cmd]\<rparr>))"
  | (failed) exe rest e where "str_split cmd = exe # rest" "which env exe \<noteq> None"
      "check_output env cmd = Inl e" "e \<noteq> TimeoutExpired"
      "run_tool env name cmd st =
         Inr (say (Error_failed name e)
           ((say (Info_Running name) st)\<lparr>spawned := spawned st @ [cmd]\<rparr>))"
proof (cases "str_split cmd")
  case Nil
  then show ?thesis using raises run_tool_raises by blast
next
  case (Cons exe rest)
  show ?thesis
  proof (cases "which env exe = None")
    case True
    with Cons show ?thesis using not_found run_tool_not_found by blast
  next
    case found: False
    show ?thesis
    proof (cases "check_output env cmd")
      case (Inr raw)
      with Cons found show ?thesis using ok run_tool_ok by blast
    next
      case (Inl e)
      show ?thesis
      proof (cases "e = TimeoutExpired")
        case True
        with Cons found Inl show ?thesis using timed_out run_tool_timed_out by blast
      next
        case False
        with Cons found Inl show ?thesis using failed run_tool_failed by blast
      qed
    qed
  qed
qed

lemma registry_has_token:
  "t \<in> set (all_tools domain) \<Longrightarrow> \<exists>c \<in> set (snd t). \<not> isspace c"
  by (auto simp: all_tools_def py_def isspace_def)

lemma registry_executables:
  "map (\<lambda>t. hd (str_split (snd t))) (all_tools domain) =
     [py ''assetfinder'', py ''subfinder'', py ''findomain'', py ''theHarvester'', py ''amass'',
      py ''python3'', py ''dnsrecon'', py ''dnsenum'', py ''fierce'', py ''gobuster'',
      py ''massdns'']"
  by (simp add: all_tools_def py_def str_split_def isspace_def)

lemma outcomes_run:
  "outcomes (say ev ((say (Info_Running name) st)\<lparr>spawned := sp\<rparr>)) = outcomes st @ outcome_of ev"
  "outcomes (say ev ((say (Info_Running name) st)\<lparr>spawned := sp, output_q := q\<rparr>))
     = outcomes st @ outcome_of ev"
  "outcomes (say ev (say (Info_Running name) st)) = outcomes st @ outcome_of ev"
  by (simp_all add: outcomes_def say_def)

text \<open>
  C5: on every tool of the table, for every domain, \<open>run_tool\<close> returns and raises
  nothing, and it adds exactly one terminal outcome for that tool to the log: \<open>not_found\<close>
  when the first token of the command is not on the path, otherwise \<open>ok\<close> when the
  subprocess delivers its output, \<open>timed_out\<close> on \<open>TimeoutExpired\<close>, and \<open>failed\<close>
  on every other exception.
\<close>

theorem run_tool_one_outcome:
  "t \<in> set (all_tools domain) \<Longrightarrow>
   \<exists>st' s exe rest.
      run_tool env (fst t) (snd t) st = Inr st'
      \<and> outcomes st' = outcomes st @ [(fst t, s)]
      \<and> str_split (snd t) = exe # rest
      \<and> s = (if which env exe = None then not_found
              else case check_output env (snd t) of
                     Inr raw \<Rightarrow> ok
                   | Inl e \<Rightarrow> if e = TimeoutExpired then timed_out else failed)"
proof -
  assume "t \<in> set (all_tools domain)"
  then have "\<exists>c \<in> set (snd t). \<not> isspace c" by (rule registry_has_token)
  then have tok: "str_split (snd t) \<noteq> []" by (simp add: str_split_Nil_iff)
  show ?thesis
  proof (cases rule: run_tool_cases [of "snd t" env "fst t" st])
    case raises
    with tok show ?thesis by simp
  next
    case (not_found exe rest)
    then show ?thesis by (simp add: outcomes_run)
  next
    case (ok exe rest raw)
    then show ?thesis by (simp add: outcomes_run)
  next
    case (timed_out exe rest)
    then show ?thesis by (simp add: outcomes_run)
  next
    case (failed exe rest e)
    then show ?thesis by (simp add: outcomes_run)
  qed
qed

theorem run_tool_one_outcome_witness:
  "(py ''assetfinder'', py ''assetfinder --subs-only example.com'')
      \<in> set (all_tools (py ''example.com''))
   \<and> (\<exists>st'. run_tool demo_env (py ''assetfinder'') (py ''assetfinder --subs-only example.com'')
              empty_state = Inr st'
            \<and> outcomes st' = [(py ''assetfinder'', ok)])"
proof -
  have m: "(py ''assetfinder'', py ''assetfinder --subs-only example.com'')
      \<in> set (all_tools (py ''example.com''))"
    by (simp add: all_tools_def py_def)
  have s: "str_split (py ''assetfinder --subs-only example.com'')
      = [py ''assetfinder'', py ''--subs-only'', py ''example.com'']"
    by (simp add: str_split_def py_def isspace_def)
  have w: "which demo_env (py ''assetfinder'') \<noteq> None"
    by (simp add: demo_env_def)
  have c: "check_output demo_env (py ''assetfinder --subs-only example.com'')
      = Inr (py ''www.example.com'' @ [10])"
    by (simp add: demo_env_def)
  have o: "outcomes empty_state = []"
    by (simp add: outcomes_def empty_state_def)
  show ?thesis
    using m run_tool_one_outcome [OF m, of demo_env empty_state] s w c o
    by auto
qed

text \<open>
  C4: a run of \<open>run_tool\<close> whose outcome is not \<open>ok\<close> leaves the queue as it was, and
  with it the result set and the written file. A \<open>not_found\<close> run hands no command to a
  subprocess; a \<open>timed_out\<close> run is one whose subprocess raised \<open>TimeoutExpired\<close>, and
  nothing of its output is kept; a non-zero exit never gives \<open>ok\<close>. Only an \<open>ok\<close> run
  appends to the queue, namely the decoded output, whose matching lines join the result set.
\<close>

theorem non_ok_contributes_nothing:
  "run_tool env name cmd st = Inr st' \<Longrightarrow> outcomes st' = outcomes st @ [(name, s)] \<Longrightarrow>
   (s \<noteq> ok \<longrightarrow>
      output_q st' = output_q st
      \<and> collect domain (output_q st') = collect domain (output_q st)
      \<and> finish_main env domain output_file st' fs = finish_main env domain output_file st fs)
   \<and> (s = not_found \<longrightarrow> spawned st' = spawned st)
   \<and> (s = timed_out \<longrightarrow> check_output env cmd = Inl TimeoutExpired)
   \<and> (s = failed \<longrightarrow> (\<exists>e. check_output env cmd = Inl e \<and> e \<noteq> TimeoutExpired))
   \<and> (\<forall>n. check_output env cmd = Inl (CalledProcessError n) \<longrightarrow> s \<noteq> ok)
   \<and> (s = ok \<longrightarrow>
        (\<exists>raw. check_output env cmd = Inr raw
           \<and> output_q st' = output_q st @ [(name, decode env raw)]
           \<and> collect domain (output_q st')
               = collect domain (output_q st) \<union> collect domain [(name, decode env raw)]))"
proof -
  assume r: "run_tool env name cmd st = Inr st'"
    and o: "outcomes st' = outcomes st @ [(name, s)]"
  show ?thesis
  proof (cases rule: run_tool_cases [of cmd env name st])
    case raises
    with r show ?thesis by simp
  next
    case (not_found exe rest)
    with r have st': "st' = say (Warn_not_found name) (say (Info_Running name) st)" by simp
    with o have "s = not_found" by (simp add: outcomes_run)
    with st' show ?thesis by (simp add: say_fields finish_main_def)
  next
    case (ok exe rest raw)
    with r have st': "st' = say (Info_Finished name (elapsed env name))
           ((say (Info_Running name) st)
              \<lparr>spawned := spawned st @ [cmd], output_q := output_q st @ [(name, decode env raw)]\<rparr>)"
      by simp
    with o have "s = ok" by (simp add: outcomes_run)
    with st' ok(3) show ?thesis by (simp add: say_fields collect_append)
  next
    case (timed_out exe rest)
    with r have st': "st' = say (Warn_timed_out name)
           ((say (Info_Running name) st)\<lparr>spawned := spawned st @ [cmd]\<rparr>)" by simp
    with o have "s = timed_out" by (simp add: outcomes_run)
    with st' timed_out(3) show ?thesis by (simp add: say_fields finish_main_def)
  next
    case (failed exe rest e)
    with r have st': "st' = say (Error_failed name e)
           ((say (Info_Running name) st)\<lparr>spawned := spawned st @ [cmd]\<rparr>)" by simp
    with o have "s = failed" by (simp add: outcomes_run)
    with st' failed(3,4) show ?thesis by (simp add: say_fields finish_main_def)
  qed
qed

theorem non_ok_contributes_nothing_witness:
  "run_tool stalled_env (py ''amass'') (py ''amass enum -passive -d example.com'') empty_state
     = Inr \<lparr>output_q = [],
            logged = [Info_Running (py ''amass''), Warn_timed_out (py ''amass'')],
            spawned = [py ''amass enum -passive -d example.com'']\<rparr>
   \<and> collect (py ''example.com'')
        (output_q \<lparr>output_q = [],
            logged = [Info_Running (py ''amass''), Warn_timed_out (py ''amass'')],
            spawned = [py ''amass enum -passive -d example.com'']\<rparr>)
      = collect (py ''example.com'') (output_q empty_state)"
proof -
  let ?st' = "\<lparr>output_q = [],
            logged = [Info_Running (py ''amass''), Warn_timed_out (py ''amass'')],
            spawned = [py ''amass enum -passive -d example.com'']\<rparr>"
  have s: "str_split (py ''amass enum -passive -d example.com'')
      = [py ''amass'', py ''enum'', py ''-passive'', py ''-d'', py ''example.com'']"
    by (simp add: str_split_def py_def isspace_def)
  have w: "which stalled_env (py ''amass'') \<noteq> None"
    by (simp add: stalled_env_def)
  have c: "check_output stalled_env (py ''amass enum -passive -d example.com'')
      = Inl TimeoutExpired"
    by (simp add: stalled_env_def)
  have r: "run_tool stalled_env (py ''amass'') (py ''amass enum -passive -d example.com'')
      empty_state = Inr ?st'"
    unfolding run_tool_timed_out [OF s w c] by (simp add: say_def empty_state_def)
  have o: "outcomes ?st' = outcomes empty_state @ [(py ''amass'', timed_out)]"
    by (simp add: outcomes_def empty_state_def)
  show ?thesis
    using r non_ok_contributes_nothing [OF r o, of "py ''example.com''"] by blast
qed

text \<open>
  C8, as stated for every command string, fails on a command without a token: on the empty
  string and on two blanks \<open>cmd.split()[0]\<close> raises \<open>IndexError\<close>, which leaves
  \<open>run_tool\<close>.
\<close>

theorem run_tool_empty_command_raises:
  "run_tool demo_env (py ''ghost'') [] empty_state
     = Inl (IndexError, \<lparr>output_q = [], logged = [Info_Running (py ''ghost'')], spawned = []\<rparr>)
   \<and> run_tool demo_env (py ''ghost'') (py ''  '') empty_state
     = Inl (IndexError, \<lparr>output_q = [], logged = [Info_Running (py ''ghost'')], spawned = []\<rparr>)"
  by (simp add: run_tool_def str_split_def py_def isspace_def say_def empty_state_def Let_def)

text \<open>
  C8, amended: for every command string with at least one character that is not whitespace
  (every command of the tool table is one, see \<open>registry_has_token\<close>), the test takes the
  first whitespace-delimited token, which is not empty, and \<open>run_tool\<close> returns. When
  \<open>which\<close> finds nothing for the token, \<open>run_tool\<close> logs the \<open>not_found\<close> outcome
  and hands no command to a subprocess; otherwise it hands over exactly the command.
\<close>

theorem availability_gate:
  "\<exists>c \<in> set cmd. \<not> isspace c \<Longrightarrow>
   (\<exists>rest. str_split cmd = takeWhile (\<lambda>c. \<not> isspace c) (dropWhile isspace cmd) # rest)
   \<and> takeWhile (\<lambda>c. \<not> isspace c) (dropWhile isspace cmd) \<noteq> []
   \<and> (which env (takeWhile (\<lambda>c. \<not> isspace c) (dropWhile isspace cmd)) = None \<longrightarrow>
         run_tool env name cmd st = Inr (say (Warn_not_found name) (say (Info_Running name) st))
         \<and> outcomes (say (Warn_not_found name) (say (Info_Running name) st))
             = outcomes st @ [(name, not_found)]
         \<and> spawned (say (Warn_not_found name) (say (Info_Running name) st)) = spawned st
         \<and> output_q (say (Warn_not_found name) (say (Info_Running name) st)) = output_q st)
   \<and> (which env (takeWhile (\<lambda>c. \<not> isspace c) (dropWhile isspace cmd)) \<noteq> None \<longrightarrow>
         (\<exists>st'. run_tool env name cmd st = Inr st' \<and> spawned st' = spawned st @ [cmd]))"
proof -
  assume "\<exists>c \<in> set cmd. \<not> isspace c"
  then obtain exe rest where sp: "str_split cmd = exe # rest"
    using str_split_token by blast
  note f = str_split_first [OF sp]
  have nf: "run_tool env name cmd st = Inr (say (Warn_not_found name) (say (Info_Running name) st))"
    if "which env exe = None"
    using sp that by (rule run_tool_not_found)
  have fd: "\<exists>st'. run_tool env name cmd st = Inr st' \<and> spawned st' = spawned st @ [cmd]"
    if w: "which env exe \<noteq> None"
  proof (cases "check_output env cmd")
    case (Inr raw)
    from run_tool_ok [OF sp w Inr] show ?thesis by (simp add: say_fields)
  next
    case (Inl e)
    show ?thesis
    proof (cases "e = TimeoutExpired")
      case True
      with Inl have "check_output env cmd = Inl TimeoutExpired" by simp
      from run_tool_timed_out [OF sp w this] show ?thesis by (simp add: say_fields)
    next
      case False
      from run_tool_failed [OF sp w Inl False] show ?thesis by (simp add: say_fields)
    qed
  qed
  from sp f(1) have 1: "\<exists>rest. str_split cmd
      = takeWhile (\<lambda>c. \<not> isspace c) (dropWhile isspace cmd) # rest" by blast
  from f have 2: "takeWhile (\<lambda>c. \<not> isspace c) (dropWhile isspace cmd) \<noteq> []" by blast
  show ?thesis
    using 1 2 nf fd unfolding f(1) [symmetric]
    by (simp add: outcomes_run say_fields)
qed

theorem availability_gate_witness:
  "(\<exists>c \<in> set (py ''dnsrecon -d example.com''). \<not> isspace c)
   \<and> which demo_env (py ''dnsrecon'') = None
   \<and> run_tool demo_env (py ''dnsrecon'') (py ''dnsrecon -d example.com'') empty_state
       = Inr \<lparr>output_q = [],
              logged = [Info_Running (py ''dnsrecon''), Warn_not_found (py ''dnsrecon'')],
              spawned = []\<rparr>"
proof -
  have h: "\<exists>c \<in> set (py ''dnsrecon -d example.com''). \<not> isspace c"
    by (simp add: py_def isspace_def)
  have t: "takeWhile (\<lambda>c. \<not> isspace c) (dropWhile isspace (py ''dnsrecon -d example.com''))
      = py ''dnsrecon''"
    by (simp add: py_def isspace_def)
  have w: "which demo_env (py ''dnsrecon'') = None"
    by (simp add: demo_env_def py_def)
  have v: "say (Warn_not_found (py ''dnsrecon'')) (say (Info_Running (py ''dnsrecon'')) empty_state)
      = \<lparr>output_q = [],
         logged = [Info_Running (py ''dnsrecon''), Warn_not_found (py ''dnsrecon'')],
         spawned = []\<rparr>"
    by (simp add: say_def empty_state_def)
  note g = availability_gate [OF h, of demo_env "py ''dnsrecon''" empty_state, unfolded t v]
  from g w have "run_tool demo_env (py ''dnsrecon'') (py ''dnsrecon -d example.com'') empty_state
       = Inr \<lparr>output_q = [],
              logged = [Info_Running (py ''dnsrecon''), Warn_not_found (py ''dnsrecon'')],
              spawned = []\<rparr>"
    by blast
  with h w show ?thesis by blast
qed

section \<open>The directory of the output file\<close>

lemma dirname_unfold:
  "dirname p =
     (if dropWhile (\<lambda>c. c \<noteq> 47) (rev p) \<noteq> []
         \<and> \<not> (\<forall>c \<in> set (dropWhile (\<lambda>c. c \<noteq> 47) (rev p)). c = 47)
      then rev (dropWhile (\<lambda>c. c = 47) (dropWhile (\<lambda>c. c \<noteq> 47) (rev p)))
      else rev (dropWhile (\<lambda>c. c \<noteq> 47) (rev p)))"
  by (simp only: dirname_def Let_def rev_rev_ident set_rev rev_is_Nil_conv)

lemma dirname_Nil_iff: "dirname p = [] \<longleftrightarrow> 47 \<notin> set p"
proof -
  define r where "r = dropWhile (\<lambda>c. c \<noteq> 47) (rev p)"
  have dn: "dirname p =
      (if r \<noteq> [] \<and> \<not> (\<forall>c \<in> set r. c = 47) then rev (dropWhile (\<lambda>c. c = 47) r) else rev r)"
    unfolding r_def by (rule dirname_unfold)
  have r: "r = [] \<longleftrightarrow> 47 \<notin> set p"
    unfolding r_def dropWhile_eq_Nil_conv by auto
  show ?thesis
  proof (cases "r = []")
    case True
    with dn have "dirname p = []" by simp
    with True r show ?thesis by blast
  next
    case False
    show ?thesis
    proof (cases "\<forall>c \<in> set r. c = 47")
      case True
      with dn have "dirname p = rev r" by simp
      with False r show ?thesis by simp
    next
      case slash: False
      then have "dropWhile (\<lambda>c. c = 47) r \<noteq> []"
        unfolding dropWhile_eq_Nil_conv by blast
      moreover from dn False slash have "dirname p = rev (dropWhile (\<lambda>c. c = 47) r)" by simp
      ultimately have "dirname p \<noteq> []" by simp
      with False r show ?thesis by blast
    qed
  qed
qed

lemma finish_main_bare:
  "47 \<notin> set output_file \<Longrightarrow> finish_main env domain output_file st fs = Inl FileNotFoundError"
  by (simp add: finish_main_def save_def os_makedirs_def dirname_Nil_iff)

text \<open>
  C10: for an output path without a slash, \<open>os.path.dirname\<close> gives the empty name,
  \<open>os.makedirs\<close> on it raises \<open>FileNotFoundError\<close>, and the run ends with that
  exception and no file written, whatever the tools delivered. A run that does write the
  file is one whose path has a non-empty directory part that \<open>os.makedirs\<close> accepted.
\<close>

theorem bare_filename_aborts:
  "(47 \<notin> set output_file \<longrightarrow>
      dirname output_file = []
      \<and> os_makedirs env (dirname output_file) = Some FileNotFoundError
      \<and> finish_main env domain output_file st fs = Inl FileNotFoundError
      \<and> (\<forall>r. main env domain output_file fs r \<longrightarrow> r = Inl FileNotFoundError))
   \<and> (finish_main env domain output_file st fs = Inr fs' \<longrightarrow>
         dirname output_file \<noteq> [] \<and> mkdir_tree env (dirname output_file) = None
         \<and> open_w env output_file = None)"
proof -
  have "r = Inl FileNotFoundError"
    if "47 \<notin> set output_file" "main env domain output_file fs r" for r
    using that(2,1) by (cases rule: main.cases) (simp add: finish_main_bare)
  moreover have "dirname output_file \<noteq> [] \<and> mkdir_tree env (dirname output_file) = None
         \<and> open_w env output_file = None"
    if "finish_main env domain output_file st fs = Inr fs'"
    using that
    by (auto simp: finish_main_def save_def os_makedirs_def split: option.splits if_splits)
  ultimately show ?thesis
    by (auto simp: finish_main_bare dirname_Nil_iff os_makedirs_def)
qed

theorem bare_filename_aborts_witness:
  "47 \<notin> set (py ''out.txt'')
   \<and> finish_main demo_env (py ''example.com'') (py ''out.txt'')
        (empty_state\<lparr>output_q := [(py ''amass'', py ''www.example.com'')]\<rparr>) Map.empty
       = Inl FileNotFoundError
   \<and> dirname (py ''out/subs.txt'') \<noteq> []"
proof -
  have h: "47 \<notin> set (py ''out.txt'')" by (simp add: py_def)
  have d: "dirname (py ''out/subs.txt'') = py ''out''"
    by (simp add: dirname_def py_def)
  have c: "collect (py ''example.com'')
        (output_q (empty_state\<lparr>output_q := [(py ''amass'', py ''www.example.com'')]\<rparr>))
      = {py ''www.example.com''}"
    by (simp add: collect_def keep_line_def py_def splitlines_def is_linebreak_def strip_def
        isspace_def)
  have s: "sorted_list_of_set {py ''www.example.com''} = [py ''www.example.com'']" by simp
  have ok: "finish_main demo_env (py ''example.com'') (py ''out/subs.txt'')
        (empty_state\<lparr>output_q := [(py ''amass'', py ''www.example.com'')]\<rparr>) Map.empty
       = Inr [py ''out/subs.txt'' \<mapsto> py ''www.example.com'' @ [10]]"
    unfolding finish_main_def save_def c d file_text_def s
    by (simp add: os_makedirs_def demo_env_def py_def)
  note b = bare_filename_aborts [of "py ''out.txt''" demo_env "py ''example.com''"
      "empty_state\<lparr>output_q := [(py ''amass'', py ''www.example.com'')]\<rparr>" Map.empty]
  note g = bare_filename_aborts [of "py ''out/subs.txt''" demo_env "py ''example.com''"
      "empty_state\<lparr>output_q := [(py ''amass'', py ''www.example.com'')]\<rparr>" Map.empty
      "[py ''out/subs.txt'' \<mapsto> py ''www.example.com'' @ [10]]"]
  from h b g ok show ?thesis by blast
qed

section \<open>The barrier between the phases\<close>

lemma phases_disjoint: "t \<in> set (fast_phase domain) \<Longrightarrow> t \<notin> set (slow_phase domain)"
  by (simp add: fast_phase_def slow_phase_def)

lemma snoc_decomp:
  "es @ [e] = pre @ x # post \<Longrightarrow>
   (post = [] \<and> pre = es \<and> x = e) \<or> (\<exists>post'. post = post' @ [e] \<and> es = pre @ x # post')"
  by (cases post rule: rev_cases) auto

lemma barrier_inv_init: "barrier_inv domain (init domain)"
  by (simp add: barrier_inv_def init_def)

lemma barrier_inv_submit:
  assumes "barrier_inv domain s" "unsubmitted s = t # ts"
  shows "barrier_inv domain (s\<lparr>unsubmitted := ts, queued := queued s @ [t]\<rparr>)"
  using assms unfolding barrier_inv_def by auto

lemma barrier_inv_start:
  assumes inv: "barrier_inv domain s" and q: "queued s = t # ts"
  shows "barrier_inv domain (s\<lparr>queued := ts, running := running s @ [t],
                                events := events s @ [Started t]\<rparr>)"
proof -
  have new: "\<forall>f \<in> set (fast_phase domain). Ended f \<in> set (events s)"
    if "t \<in> set (slow_phase domain)"
  proof (cases "pc s = Fast")
    case True
    with inv q have "t \<in> set (fast_phase domain)" unfolding barrier_inv_def by auto
    with that show ?thesis using phases_disjoint by blast
  next
    case False
    with inv show ?thesis unfolding barrier_inv_def by blast
  qed
  have 1: "\<forall>f \<in> set (fast_phase domain). Ended f \<in> set pre"
    if d: "events s @ [Started t] = pre @ Started t' # post" and sl: "t' \<in> set (slow_phase domain)"
    for pre t' post
  proof -
    from snoc_decomp [OF d] consider "pre = events s" "t' = t"
      | post' where "events s = pre @ Started t' # post'" by auto
    then show ?thesis
    proof cases
      case 1
      with new sl show ?thesis by simp
    next
      case 2
      with inv sl show ?thesis unfolding barrier_inv_def by blast
    qed
  qed
  have 2: "\<forall>u \<in> set (completed s). Ended u \<in> set (events s @ [Started t])"
    using inv unfolding barrier_inv_def by simp
  have 3: "pc s = Fast \<longrightarrow>
      set (unsubmitted s) \<union> set ts \<union> set (running s @ [t]) \<subseteq> set (fast_phase domain)
      \<and> set (fast_phase domain)
           \<subseteq> set (unsubmitted s) \<union> set ts \<union> set (running s @ [t]) \<union> set (completed s)"
    using inv q unfolding barrier_inv_def by auto
  have 4: "pc s \<noteq> Fast \<longrightarrow>
      (\<forall>f \<in> set (fast_phase domain). Ended f \<in> set (events s @ [Started t]))"
    using inv unfolding barrier_inv_def by simp
  show ?thesis
    unfolding barrier_inv_def using 1 2 3 4 by simp
qed

lemma barrier_inv_finish:
  assumes inv: "barrier_inv domain s" and r: "t \<in> set (running s)"
  shows "barrier_inv domain (s\<lparr>running := remove1 t (running s), completed := completed s @ [t],
                                events := events s @ [Ended t], shared := sh\<rparr>)"
proof -
  have 1: "\<forall>f \<in> set (fast_phase domain). Ended f \<in> set pre"
    if d: "events s @ [Ended t] = pre @ Started t' # post" and sl: "t' \<in> set (slow_phase domain)"
    for pre t' post
  proof -
    from snoc_decomp [OF d] obtain post' where "events s = pre @ Started t' # post'" by auto
    with inv sl show ?thesis unfolding barrier_inv_def by blast
  qed
  have 2: "\<forall>u \<in> set (completed s @ [t]). Ended u \<in> set (events s @ [Ended t])"
    using inv unfolding barrier_inv_def by simp
  have sub: "set (remove1 t (running s)) \<subseteq> set (running s)"
    by (rule set_remove1_subset)
  have sup: "set (running s) \<subseteq> insert t (set (remove1 t (running s)))"
  proof
    fix x assume "x \<in> set (running s)"
    then show "x \<in> insert t (set (remove1 t (running s)))"
      by (cases "x = t") (simp_all add: in_set_remove1)
  qed
  have 3: "pc s = Fast \<longrightarrow>
      set (unsubmitted s) \<union> set (queued s) \<union> set (remove1 t (running s))
        \<subseteq> set (fast_phase domain)
      \<and> set (fast_phase domain)
           \<subseteq> set (unsubmitted s) \<union> set (queued s) \<union> set (remove1 t (running s))
               \<union> set (completed s @ [t])"
    using inv sub sup unfolding barrier_inv_def by auto
  have 4: "pc s \<noteq> Fast \<longrightarrow>
      (\<forall>f \<in> set (fast_phase domain). Ended f \<in> set (events s @ [Ended t]))"
    using inv unfolding barrier_inv_def by simp
  show ?thesis
    unfolding barrier_inv_def using 1 2 3 4 by simp
qed

lemma barrier_inv_next_phase:
  assumes inv: "barrier_inv domain s" and "pc s = Fast" "unsubmitted s = []" "queued s = []"
    "running s = []"
  shows "barrier_inv domain (s\<lparr>pc := Slow, unsubmitted := ts, shared := sh\<rparr>)"
proof -
  from inv assms(2-) have "set (fast_phase domain) \<subseteq> set (completed s)"
    unfolding barrier_inv_def by simp
  moreover from inv have "\<forall>u \<in> set (completed s). Ended u \<in> set (events s)"
    unfolding barrier_inv_def by blast
  ultimately have "\<forall>f \<in> set (fast_phase domain). Ended f \<in> set (events s)" by blast
  with inv show ?thesis unfolding barrier_inv_def by simp
qed

lemma barrier_inv_leave:
  assumes inv: "barrier_inv domain s" and "pc s = Slow"
  shows "barrier_inv domain (s\<lparr>pc := After\<rparr>)"
  using assms unfolding barrier_inv_def by simp

lemma barrier_inv_step:
  "step env domain s s' \<Longrightarrow> barrier_inv domain s \<Longrightarrow> barrier_inv domain s'"
proof (induction rule: step.induct)
  case (submit s t ts)
  then show ?case by (simp add: barrier_inv_submit)
next
  case (start s t ts)
  then show ?case by (simp add: barrier_inv_start)
next
  case (finish t s)
  then show ?case by (simp add: barrier_inv_finish)
next
  case (next_phase s)
  then show ?case by (simp add: barrier_inv_next_phase)
next
  case (leave s)
  then show ?case by (simp add: barrier_inv_leave)
qed

lemma reachable_barrier_inv: "reachable env domain s \<Longrightarrow> barrier_inv domain s"
  unfolding reachable_def
  by (induction rule: rtranclp_induct) (auto intro: barrier_inv_init barrier_inv_step)

text \<open>
  C6: in every state that the two phases can reach, under every interleaving of the
  workers, each start of a slow-phase tool in the trace of events comes after the end of
  every fast-phase tool.
\<close>

theorem fast_phase_barrier:
  "reachable env domain s \<Longrightarrow> events s = pre @ Started t # post \<Longrightarrow>
   t \<in> set (slow_phase domain) \<Longrightarrow> f \<in> set (fast_phase domain) \<Longrightarrow> Ended f \<in> set pre"
proof -
  assume "reachable env domain s"
  then have "barrier_inv domain s" by (rule reachable_barrier_inv)
  moreover assume "events s = pre @ Started t # post" "t \<in> set (slow_phase domain)"
    "f \<in> set (fast_phase domain)"
  ultimately show ?thesis unfolding barrier_inv_def by blast
qed

lemma one_by_one_steps:
  "unsubmitted s = ts \<Longrightarrow> queued s = [] \<Longrightarrow> running s = [] \<Longrightarrow> 0 < max_workers (pc s) \<Longrightarrow>
   (step env domain)\<^sup>*\<^sup>* s (one_by_one env ts s)"
proof (induction ts arbitrary: s)
  case Nil
  then have "one_by_one env [] s = s" by (cases s) (simp add: one_by_one_def)
  then show ?case by simp
next
  case (Cons t ts)
  define s1 where "s1 = s\<lparr>unsubmitted := ts, queued := queued s @ [t]\<rparr>"
  define s2 where "s2 = s1\<lparr>queued := [], running := running s1 @ [t],
                            events := events s1 @ [Started t]\<rparr>"
  define s3 where "s3 = s2\<lparr>running := remove1 t (running s2), completed := completed s2 @ [t],
                            events := events s2 @ [Ended t],
                            shared := effect env t (shared s2)\<rparr>"
  have 1: "step env domain s s1"
    unfolding s1_def using Cons.prems(1) by (rule step.submit)
  have q1: "queued s1 = t # []" using Cons.prems(2) by (simp add: s1_def)
  have w1: "length (running s1) < max_workers (pc s1)"
    using Cons.prems(3,4) by (simp add: s1_def)
  have 2: "step env domain s1 s2"
    unfolding s2_def using q1 w1 by (rule step.start)
  have r2: "t \<in> set (running s2)" by (simp add: s2_def)
  have 3: "step env domain s2 s3"
    unfolding s3_def using r2 by (rule step.finish)
  have "(step env domain)\<^sup>*\<^sup>* s3 (one_by_one env ts s3)"
  proof (rule Cons.IH)
    show "unsubmitted s3 = ts" by (simp add: s3_def s2_def s1_def)
    show "queued s3 = []" by (simp add: s3_def s2_def s1_def)
    show "running s3 = []" using Cons.prems(3) by (simp add: s3_def s2_def s1_def)
    show "0 < max_workers (pc s3)" using Cons.prems(4) by (simp add: s3_def s2_def s1_def)
  qed
  moreover have "one_by_one env ts s3 = one_by_one env (t # ts) s"
    using Cons.prems by (cases s) (simp add: one_by_one_def s3_def s2_def s1_def)
  ultimately have "(step env domain)\<^sup>*\<^sup>* s3 (one_by_one env (t # ts) s)" by simp
  with 1 2 3 show ?case by (meson converse_rtranclp_into_rtranclp)
qed

lemma after_fast_reachable: "reachable env domain (after_fast env domain)"
proof -
  let ?s = "one_by_one env (fast_phase domain) (init domain)"
  have "(step env domain)\<^sup>*\<^sup>* (init domain) ?s"
    by (rule one_by_one_steps) (simp_all add: init_def)
  moreover have "step env domain ?s (after_fast env domain)"
    unfolding after_fast_def Let_def
    by (rule step.next_phase) (simp_all add: one_by_one_def init_def)
  ultimately show ?thesis unfolding reachable_def by (rule rtranclp.rtrancl_into_rtrancl)
qed

lemma in_turn_reachable: "reachable env domain (in_turn env domain)"
proof -
  let ?s = "one_by_one env (slow_phase domain) (after_fast env domain)"
  have "(step env domain)\<^sup>*\<^sup>* (after_fast env domain) ?s"
    by (rule one_by_one_steps)
      (simp_all add: after_fast_def Let_def one_by_one_def init_def)
  with after_fast_reachable [of env domain]
  have "(step env domain)\<^sup>*\<^sup>* (init domain) ?s" unfolding reachable_def by simp
  moreover have "step env domain ?s (in_turn env domain)"
    unfolding in_turn_def
    by (rule step.leave) (simp_all add: after_fast_def Let_def one_by_one_def init_def)
  ultimately show ?thesis unfolding reachable_def by (rule rtranclp.rtrancl_into_rtrancl)
qed

lemma in_turn_pc: "pc (in_turn env domain) = After"
  by (simp add: in_turn_def)

lemma in_turn_events:
  "events (in_turn env domain) =
     concat (map (\<lambda>t. [Started t, Ended t]) (fast_phase domain))
     @ concat (map (\<lambda>t. [Started t, Ended t]) (slow_phase domain))"
  by (simp add: in_turn_def one_by_one_def after_fast_def Let_def init_def)

lemma fast_phase_eq:
  "fast_phase domain = take 6 (all_tools domain)"
  by (simp add: fast_phase_def all_tools_def fast_tools_def py_def)

lemma slow_phase_eq:
  "slow_phase domain = drop 6 (all_tools domain)"
  by (simp add: slow_phase_def all_tools_def fast_tools_def py_def)

theorem fast_phase_barrier_witness:
  "reachable demo_env (py ''example.com'') (in_turn demo_env (py ''example.com''))
   \<and> events (in_turn demo_env (py ''example.com''))
       = concat (map (\<lambda>t. [Started t, Ended t]) (fast_phase (py ''example.com'')))
         @ Started (py ''dnsrecon'', py ''dnsrecon -d example.com'')
         # Ended (py ''dnsrecon'', py ''dnsrecon -d example.com'')
         # concat (map (\<lambda>t. [Started t, Ended t]) (drop 7 (all_tools (py ''example.com''))))
   \<and> (py ''dnsrecon'', py ''dnsrecon -d example.com'') \<in> set (slow_phase (py ''example.com''))
   \<and> (py ''amass'', py ''amass enum -passive -d example.com'')
       \<in> set (fast_phase (py ''example.com''))
   \<and> Ended (py ''amass'', py ''amass enum -passive -d example.com'')
       \<in> set (concat (map (\<lambda>t. [Started t, Ended t]) (fast_phase (py ''example.com''))))"
proof -
  have sl: "slow_phase (py ''example.com'')
      = (py ''dnsrecon'', py ''dnsrecon -d example.com'') # drop 7 (all_tools (py ''example.com''))"
    by (simp add: slow_phase_eq all_tools_def py_def)
  have e: "events (in_turn demo_env (py ''example.com''))
       = concat (map (\<lambda>t. [Started t, Ended t]) (fast_phase (py ''example.com'')))
         @ Started (py ''dnsrecon'', py ''dnsrecon -d example.com'')
         # Ended (py ''dnsrecon'', py ''dnsrecon -d example.com'')
         # concat (map (\<lambda>t. [Started t, Ended t]) (drop 7 (all_tools (py ''example.com''))))"
    unfolding in_turn_events sl by simp
  have ts: "(py ''dnsrecon'', py ''dnsrecon -d example.com'') \<in> set (slow_phase (py ''example.com''))"
    unfolding sl by simp
  have fs: "(py ''amass'', py ''amass enum -passive -d example.com'')
       \<in> set (fast_phase (py ''example.com''))"
    by (simp add: fast_phase_eq all_tools_def py_def)
  have r: "reachable demo_env (py ''example.com'') (in_turn demo_env (py ''example.com''))"
    by (rule in_turn_reachable)
  from fast_phase_barrier [OF r e ts fs] r e ts fs show ?thesis by (intro conjI)
qed

section \<open>The queue after both phases\<close>

text \<open>
  Whatever the interleaving, the queue that the two phases leave holds what each tool of
  the table puts, so \<open>main\<close> has exactly one result.
\<close>

lemma output_q_effect: "output_q (effect env t st) = output_q st @ puts env t"
proof (cases rule: run_tool_cases [of "snd t" env "fst t" st])
  case raises
  from run_tool_raises [OF raises(1), of env "fst t" empty_state] raises(2)
  show ?thesis by (simp add: effect_def puts_def say_fields empty_state_def)
next
  case (not_found exe rest)
  from run_tool_not_found [OF not_found(1,2), of "fst t" empty_state] not_found(3)
  show ?thesis by (simp add: effect_def puts_def say_fields empty_state_def)
next
  case (ok exe rest raw)
  from run_tool_ok [OF ok(1,2,3), of "fst t" empty_state] ok(4)
  show ?thesis by (simp add: effect_def puts_def say_fields empty_state_def)
next
  case (timed_out exe rest)
  from run_tool_timed_out [OF timed_out(1,2,3), of "fst t" empty_state] timed_out(4)
  show ?thesis by (simp add: effect_def puts_def say_fields empty_state_def)
next
  case (failed exe rest e)
  from run_tool_failed [OF failed(1,2,3,4), of "fst t" empty_state] failed(5)
  show ?thesis by (simp add: effect_def puts_def say_fields empty_state_def)
qed

lemma accounted_init: "accounted env domain (init domain)"
  by (simp add: accounted_def init_def)

lemma accounted_finish:
  assumes acc: "accounted env domain s" and run: "t \<in> set (running s)"
  shows "accounted env domain
     (s\<lparr>running := remove1 t (running s), completed := completed s @ [t],
        events := ev, shared := effect env t (shared s)\<rparr>)"
proof -
  define R where "R = mset (remove1 t (running s))"
  have r: "mset (running s) = add_mset t R"
    unfolding R_def using run by simp
  have m: "mset (unsubmitted s) + mset (queued s) + mset (remove1 t (running s))
        + mset (completed s @ [t])
      = mset (unsubmitted s) + mset (queued s) + mset (running s) + mset (completed s)"
    unfolding R_def [symmetric] r by simp
  from acc have a: "output_q (shared s) = concat (map (puts env) (completed s))"
    and b: "pc s = Fast \<longrightarrow>
          mset (unsubmitted s) + mset (queued s) + mset (running s) + mset (completed s)
            = mset (fast_phase domain)"
    and c: "pc s \<noteq> Fast \<longrightarrow>
          mset (unsubmitted s) + mset (queued s) + mset (running s) + mset (completed s)
            = mset (fast_phase domain) + mset (slow_phase domain)"
    and d: "pc s = After \<longrightarrow> unsubmitted s = [] \<and> queued s = [] \<and> running s = []"
    unfolding accounted_def by blast+
  from d run have na: "pc s \<noteq> After" by auto
  have q: "output_q (effect env t (shared s)) = concat (map (puts env) (completed s @ [t]))"
    using a by (simp add: output_q_effect)
  let ?s' = "s\<lparr>running := remove1 t (running s), completed := completed s @ [t],
        events := ev, shared := effect env t (shared s)\<rparr>"
  have f: "pc ?s' = pc s" "unsubmitted ?s' = unsubmitted s" "queued ?s' = queued s"
    "running ?s' = remove1 t (running s)" "completed ?s' = completed s @ [t]"
    "shared ?s' = effect env t (shared s)"
    by simp_all
  show ?thesis
    unfolding accounted_def f m
    using q b c na by blast
qed

lemma accounted_step:
  "step env domain s s' \<Longrightarrow> accounted env domain s \<Longrightarrow> accounted env domain s'"
proof (induction rule: step.induct)
  case (submit s t ts)
  then show ?case by (simp add: accounted_def)
next
  case (start s t ts)
  then show ?case by (simp add: accounted_def)
next
  case (finish t s)
  then show ?case by (simp only: accounted_finish)
next
  case (next_phase s)
  then show ?case by (simp add: accounted_def say_fields add.commute)
next
  case (leave s)
  then show ?case by (simp add: accounted_def)
qed

lemma reachable_accounted: "reachable env domain s \<Longrightarrow> accounted env domain s"
  unfolding reachable_def
  by (induction rule: rtranclp_induct) (auto intro: accounted_init accounted_step)

lemma phases_partition:
  "mset (fast_phase domain) + mset (slow_phase domain) = mset (all_tools domain)"
  unfolding fast_phase_def slow_phase_def mset_filter by (rule multiset_partition [symmetric])

lemma mset_concat_map: "mset (concat (map f xs)) = (\<Sum>x \<in># mset xs. mset (f x))"
  by (induction xs) simp_all

lemma concat_map_cong_mset:
  "mset xs = mset ys \<Longrightarrow> mset (concat (map f xs)) = mset (concat (map f ys))"
  by (simp add: mset_concat_map)

lemma final_queue:
  assumes "reachable env domain s" "pc s = After"
  shows "mset (output_q (shared s)) = mset (concat (map (puts env) (all_tools domain)))"
proof -
  from assms(1) have a: "accounted env domain s" by (rule reachable_accounted)
  from a assms(2) have e: "unsubmitted s = []" "queued s = []" "running s = []"
    unfolding accounted_def by blast+
  from assms(2) have "pc s \<noteq> Fast" by simp
  with a have "mset (unsubmitted s) + mset (queued s) + mset (running s) + mset (completed s)
            = mset (fast_phase domain) + mset (slow_phase domain)"
    unfolding accounted_def by blast
  with e have "mset (completed s) = mset (all_tools domain)"
    by (simp add: phases_partition)
  then have "mset (concat (map (puts env) (completed s)))
      = mset (concat (map (puts env) (all_tools domain)))"
    by (rule concat_map_cong_mset)
  with a show ?thesis by (simp add: accounted_def)
qed

lemma main_result:
  "main env domain output_file fs r \<longleftrightarrow>
     r = save env output_file (collect domain (concat (map (puts env) (all_tools domain)))) fs"
proof
  assume "main env domain output_file fs r"
  then obtain s where s: "reachable env domain s" "pc s = After"
    and r: "r = finish_main env domain output_file (shared s) fs"
    by (auto elim: main.cases)
  from final_queue [OF s] have "set (output_q (shared s))
      = set (concat (map (puts env) (all_tools domain)))" by (rule mset_eq_setD)
  then have "collect domain (output_q (shared s))
      = collect domain (concat (map (puts env) (all_tools domain)))" by (rule collect_set_cong)
  with r show "r = save env output_file
      (collect domain (concat (map (puts env) (all_tools domain)))) fs"
    by (simp add: finish_main_def)
next
  assume r: "r = save env output_file
      (collect domain (concat (map (puts env) (all_tools domain)))) fs"
  have s: "reachable env domain (in_turn env domain)" "pc (in_turn env domain) = After"
    by (rule in_turn_reachable, rule in_turn_pc)
  from final_queue [OF s] have "set (output_q (shared (in_turn env domain)))
      = set (concat (map (puts env) (all_tools domain)))" by (rule mset_eq_setD)
  then have "collect domain (output_q (shared (in_turn env domain)))
      = collect domain (concat (map (puts env) (all_tools domain)))" by (rule collect_set_cong)
  with r have "r = finish_main env domain output_file (shared (in_turn env domain)) fs"
    by (simp add: finish_main_def)
  with main.intros [OF s, of output_file fs] show "main env domain output_file fs r" by simp
qed

lemma main_returns: "\<exists>r. main env domain output_file fs r"
  by (simp add: main_result)

lemma main_deterministic:
  "main env domain output_file fs r \<Longrightarrow> main env domain output_file fs r' \<Longrightarrow> r = r'"
  by (simp add: main_result)

section \<open>A run with two installed tools\<close>

text \<open>
  In \<open>demo_env\<close> the fast tools \<open>assetfinder\<close> and \<open>subfinder\<close> both print
  \<open>www.example.com\<close> and no other tool is installed: every run of \<open>main\<close> writes
  the file with that one line.
\<close>

lemma puts_eq:
  assumes "str_split (snd t) \<noteq> []"
  shows "puts env t =
     (if which env (hd (str_split (snd t))) = None then []
      else case check_output env (snd t) of
             Inr raw \<Rightarrow> [(fst t, decode env raw)]
           | Inl e \<Rightarrow> [])"
proof (cases rule: run_tool_cases [of "snd t" env "fst t" empty_state])
  case raises
  with assms show ?thesis by simp
next
  case (not_found exe rest)
  then show ?thesis by (simp add: puts_def effect_def say_fields empty_state_def)
next
  case (ok exe rest raw)
  then show ?thesis by (simp add: puts_def effect_def say_fields empty_state_def)
next
  case (timed_out exe rest)
  then show ?thesis by (simp add: puts_def effect_def say_fields empty_state_def)
next
  case (failed exe rest e)
  then show ?thesis by (simp add: puts_def effect_def say_fields empty_state_def)
qed

lemma registry_split_nonempty:
  "t \<in> set (all_tools domain) \<Longrightarrow> str_split (snd t) \<noteq> []"
  using registry_has_token [of t domain] by (simp add: str_split_Nil_iff)

lemma puts_demo_env:
  assumes "t \<in> set (all_tools domain)"
  shows "puts demo_env t =
     (if hd (str_split (snd t)) = py ''assetfinder'' \<or> hd (str_split (snd t)) = py ''subfinder''
      then [(fst t, py ''www.example.com'' @ [10])] else [])"
  unfolding puts_eq [OF registry_split_nonempty [OF assms]]
  by (simp add: demo_env_def)

lemma registry_names:
  "map fst (all_tools domain) =
     [py ''assetfinder'', py ''subfinder'', py ''findomain'', py ''theHarvester'', py ''amass'',
      py ''sublist3r'', py ''dnsrecon'', py ''dnsenum'', py ''fierce'', py ''gobuster'',
      py ''massdns'']"
  by (simp add: all_tools_def)

lemma queue_demo_env:
  "concat (map (puts demo_env) (all_tools domain)) =
     [(py ''assetfinder'', py ''www.example.com'' @ [10]),
      (py ''subfinder'', py ''www.example.com'' @ [10])]"
proof -
  define G where "G = (\<lambda>(n :: pystr) (h :: pystr).
      if h = py ''assetfinder'' \<or> h = py ''subfinder''
      then [(n, py ''www.example.com'' @ [10])] else [])"
  have "map (puts demo_env) (all_tools domain) =
      map (\<lambda>t. G (fst t) (hd (str_split (snd t)))) (all_tools domain)"
    unfolding G_def by (rule map_cong [OF refl]) (rule puts_demo_env)
  also have "\<dots> = map2 G (map fst (all_tools domain))
      (map (\<lambda>t. hd (str_split (snd t))) (all_tools domain))"
    by (rule map2_map_map [symmetric])
  also have "\<dots> =
     [G (py ''assetfinder'') (py ''assetfinder''), G (py ''subfinder'') (py ''subfinder''),
      G (py ''findomain'') (py ''findomain''), G (py ''theHarvester'') (py ''theHarvester''),
      G (py ''amass'') (py ''amass''), G (py ''sublist3r'') (py ''python3''),
      G (py ''dnsrecon'') (py ''dnsrecon''), G (py ''dnsenum'') (py ''dnsenum''),
      G (py ''fierce'') (py ''fierce''), G (py ''gobuster'') (py ''gobuster''),
      G (py ''massdns'') (py ''massdns'')]"
    unfolding registry_names registry_executables by simp
  finally have m: "map (puts demo_env) (all_tools domain) =
     [G (py ''assetfinder'') (py ''assetfinder''), G (py ''subfinder'') (py ''subfinder''),
      G (py ''findomain'') (py ''findomain''), G (py ''theHarvester'') (py ''theHarvester''),
      G (py ''amass'') (py ''amass''), G (py ''sublist3r'') (py ''python3''),
      G (py ''dnsrecon'') (py ''dnsrecon''), G (py ''dnsenum'') (py ''dnsenum''),
      G (py ''fierce'') (py ''fierce''), G (py ''gobuster'') (py ''gobuster''),
      G (py ''massdns'') (py ''massdns'')]" .
  show ?thesis
    unfolding m by (simp add: G_def py_def)
qed

lemma scenario_two_fast_tools:
  "main demo_env (py ''example.com'') (py ''out/subs.txt'') fs r \<longleftrightarrow>
     r = Inr (fs(py ''out/subs.txt'' \<mapsto> py ''www.example.com'' @ [10]))"
proof -
  have c: "collect (py ''example.com'')
      [(py ''assetfinder'', py ''www.example.com'' @ [10]),
       (py ''subfinder'', py ''www.example.com'' @ [10])] = {py ''www.example.com''}"
    by (simp add: collect_def keep_line_def py_def splitlines_def is_linebreak_def strip_def
        isspace_def)
  have s: "sorted_list_of_set {py ''www.example.com''} = [py ''www.example.com'']" by simp
  have d: "dirname (py ''out/subs.txt'') = py ''out''"
    by (simp add: dirname_def py_def)
  show ?thesis
    unfolding main_result queue_demo_env c save_def d file_text_def s
    by (simp add: os_makedirs_def demo_env_def py_def)
qed

section \<open>A tool that exits with an error\<close>

text \<open>
  In \<open>broken_env\<close> the subprocess exits with status 1: the run is logged as failed
  and the queue stays empty.
\<close>

lemma run_tool_nonzero_exit:
  "run_tool broken_env (py ''fierce'') (py ''fierce --domain example.com'') empty_state
     = Inr \<lparr>output_q = [],
            logged = [Info_Running (py ''fierce''),
                      Error_failed (py ''fierce'') (CalledProcessError 1)],
            spawned = [py ''fierce --domain example.com'']\<rparr>"
proof -
  have s: "str_split (py ''fierce --domain example.com'')
      = [py ''fierce'', py ''--domain'', py ''example.com'']"
    by (simp add: str_split_def py_def isspace_def)
  have w: "which broken_env (py ''fierce'') \<noteq> None"
    by (simp add: broken_env_def)
  have c: "check_output broken_env (py ''fierce --domain example.com'')
      = Inl (CalledProcessError 1)"
    by (simp add: broken_env_def)
  have e: "CalledProcessError 1 \<noteq> TimeoutExpired" by simp
  show ?thesis
    unfolding run_tool_failed [OF s w c e] by (simp add: say_def empty_state_def)
qed

end
